theory Spec2Isabelle
  imports Main "HOL-Library.Word" "HOL-Library.AList" "HOL-Library.Sublist"
begin

section \<open>Data model of package sse\<close>

text \<open>
  A Go \<^verbatim>\<open>string\<close> is a sequence of bytes, which is what \<^typ>\<open>string\<close> is in HOL
  (a \<^typ>\<open>char\<close> is eight bits). A \<^verbatim>\<open>[]byte\<close> is a list of 8-bit words; the
  conversion \<^verbatim>\<open>string(v)\<close> copies the bytes one by one, so the text is the bytes
  themselves (the UTF-8 encoding of whatever they spell).
\<close>

definition string_of_bytes :: "8 word list \<Rightarrow> string" where
  "string_of_bytes v = map (\<lambda>b. char_of (unat b)) v"

text \<open>
  \<^verbatim>\<open>Event.Data\<close> has type \<^verbatim>\<open>interface{}\<close>. The dynamic values the package itself
  builds or switches on are given constructors; every other dynamic type is \<open>GOther\<close>.
  \<open>GNil\<close> is the nil interface, the \<^verbatim>\<open>Data\<close> of the zero \<^verbatim>\<open>Event\<close>.
\<close>

datatype 'a gval =
    GNil
  | GString string
  | GBytes "8 word list"
  | GInt64 int
  | GMap "(string \<times> 'a gval) list"
  | GOther 'a

record 'a Event =
  Type :: string
  Data :: "'a gval"
  ID :: string

definition zeroEvent :: "'a Event" where
  "zeroEvent = \<lparr>Type = [], Data = GNil, ID = []\<rparr>"

record Config =
  MaxConnections :: int
  RetryTimeout :: int
  HeartbeatInterval :: int
  BufferSize :: int

definition DefaultConfig :: Config where
  "DefaultConfig = \<lparr>MaxConnections = 1000, RetryTimeout = 3000,
     HeartbeatInterval = 30 * 1000000000, BufferSize = 1024\<rparr>"

text \<open>
  A \<^verbatim>\<open>Client\<close>. \<open>EventCh\<close> is the content of the channel's buffer, oldest event
  first, and \<open>chcap\<close> the capacity it was made with. \<open>parked\<close> says that the one
  receiver of the channel, the client's call of \<^verbatim>\<open>HandleSSE\<close>, is blocked in its
  \<^verbatim>\<open>select\<close>; the buffer is empty then. A send to a channel whose receiver is blocked
  does not go through the buffer: the event is handed to the receiver, which is woken.
  \<open>handoff\<close> is that event, from the send until the receiver runs again and takes it.
  \<open>mu\<close> says that \<^verbatim>\<open>client.mu\<close> is held across steps, which only \<^verbatim>\<open>sendEventToClient\<close>
  does, for as long as its \<^verbatim>\<open>conn.Write\<close> takes. The only code that writes \<^verbatim>\<open>c.closed\<close>
  or closes \<^verbatim>\<open>c.EventCh\<close> is \<^verbatim>\<open>Client.close\<close>, which does both under \<^verbatim>\<open>c.mu\<close>, so the one
  flag \<open>closed\<close> stands for both. \<open>conn\<close> is the list of byte strings written to the
  response writer so far. The fields \<^verbatim>\<open>Type\<close> and \<^verbatim>\<open>server\<close> are never read.
\<close>

record 'a Client =
  clientID :: string
  EventCh :: "'a Event list"
  chcap :: nat
  handoff :: "'a Event option"
  parked :: bool
  mu :: bool
  closed :: bool
  conn :: "string list"

text \<open>
  What the package takes from the library and the runtime is a parameter of the model:
  the two functions that \<^verbatim>\<open>sendEventToClient\<close> calls on a payload that is neither a
  string nor a byte slice, \<^verbatim>\<open>json.Marshal\<close> (\<open>None\<close> when it returns an error) and
  \<^verbatim>\<open>fmt.Sprintf("%v", _)\<close>; and the largest \<open>n\<close> for which \<^verbatim>\<open>make(chan Event, n)\<close> does not
  panic with \<^verbatim>\<open>makechan: size out of range\<close>, which is the platform's allocation limit
  divided by the size of an \<^verbatim>\<open>Event\<close> (5864062014803 on a 64-bit Linux, where an
  \<^verbatim>\<open>Event\<close> takes 48 bytes and the limit is \<open>2^48\<close> bytes less the channel's header).
\<close>

record 'a stdlib =
  json_Marshal :: "'a gval \<Rightarrow> string option"
  fmt_Sprint_v :: "'a gval \<Rightarrow> string"
  makechan_max :: int

section \<open>Serialising and writing one event\<close>

datatype send_error = ClientConnectionClosed | WriteError

text \<open>The type switch on \<^verbatim>\<open>event.Data\<close> that computes \<^verbatim>\<open>dataStr\<close>.\<close>

definition dataStr :: "'a stdlib \<Rightarrow> 'a gval \<Rightarrow> string" where
  "dataStr L d =
     (case d of
        GString v \<Rightarrow> v
      | GBytes v \<Rightarrow> string_of_bytes v
      | _ \<Rightarrow> (case json_Marshal L d of
                Some jsonData \<Rightarrow> jsonData
              | None \<Rightarrow> fmt_Sprint_v L d))"

text \<open>
  The value of \<^verbatim>\<open>eventStr\<close> when \<^verbatim>\<open>sendEventToClient\<close> reaches \<^verbatim>\<open>conn.Write\<close>: the
  variable starts empty and is extended by three \<^verbatim>\<open>+=\<close>, two of them guarded.
\<close>

definition eventStr :: "'a stdlib \<Rightarrow> 'a Event \<Rightarrow> string" where
  "eventStr L event =
     (let s0 = [];
          s1 = (if ID event \<noteq> [] then s0 @ (''id: '' @ ID event @ ''\<newline>'') else s0);
          s2 = (if Type event \<noteq> [] then s1 @ (''event: '' @ Type event @ ''\<newline>'') else s1)
      in s2 @ (''data: '' @ dataStr L (Data event) @ ''\<newline>\<newline>''))"

text \<open>
  \<^verbatim>\<open>sendEventToClient\<close>, from taking \<^verbatim>\<open>client.mu\<close> to releasing it. \<open>wok\<close> says whether
  \<^verbatim>\<open>client.conn.Write\<close> succeeds; that is the peer's doing, so it is an input. A failed
  write leaves \<open>conn\<close> as it was. How long the write takes is the peer's doing too: in
  the interleaving below the call is two steps, with \<open>mu\<close> set in between.
\<close>

definition sendEventToClient ::
  "'a stdlib \<Rightarrow> bool \<Rightarrow> 'a Client \<Rightarrow> 'a Event \<Rightarrow> send_error + 'a Client" where
  "sendEventToClient L wok client event =
     (if closed client then Inl ClientConnectionClosed
      else if \<not> wok then Inl WriteError
      else Inr (client\<lparr>conn := conn client @ [eventStr L event]\<rparr>))"

section \<open>The server and its registry\<close>

text \<open>
  The ways the package can bring a goroutine down: the four run-time panics it can run
  into, and the runtime's fatal error when it finds no memory for a channel's buffer.
\<close>

datatype panic =
    CloseOfClosedChannel
  | SendOnClosedChannel
  | MakechanSizeOutOfRange
  | NonPositiveTickerInterval
  | OutOfMemory

text \<open>
  The \<^verbatim>\<open>Server\<close>. A \<^verbatim>\<open>*Client\<close> is an address into \<open>heap\<close>, the store of every
  \<^verbatim>\<open>Client\<close> allocated so far; \<open>clients\<close> is the Go map from id to \<^verbatim>\<open>*Client\<close>, kept as an
  association list that is only changed by \<open>AList.update\<close>, \<open>AList.delete\<close> and
  replacement by the empty map. Go ranges over a map in an unspecified order; the order of
  the list is one such order. \<open>shutdown\<close> says that the channel \<^verbatim>\<open>s.shutdown\<close> is closed,
  \<open>ctx_done\<close> that \<^verbatim>\<open>s.cancel()\<close> has run.
\<close>

record 'a Server =
  config :: Config
  clients :: "(string \<times> nat) list"
  clientsByType :: "(string \<times> (string \<times> nat) list) list"
  shutdown :: bool
  ctx_done :: bool
  heap :: "'a Client list"

definition NewServerWithConfig :: "Config \<Rightarrow> 'a Server" where
  "NewServerWithConfig cfg =
     \<lparr>config = cfg, clients = [], clientsByType = [], shutdown = False, ctx_done = False,
      heap = []\<rparr>"

definition NewServer :: "'a Server" where
  "NewServer = NewServerWithConfig DefaultConfig"

text \<open>
  \<^verbatim>\<open>Client.close\<close>, once it has \<^verbatim>\<open>c.mu\<close>: closes the channel once, guarded by the flag.
  Closing a channel wakes the receiver blocked on it. This function, \<open>removeClient\<close> and
  \<open>Shutdown\<close> below say what the calls do when they do not have to wait for a mutex;
  the waiting is part of the interleaving.
\<close>

definition close :: "'a Client \<Rightarrow> 'a Client" where
  "close c = (if \<not> closed c then c\<lparr>closed := True, parked := False\<rparr> else c)"

text \<open>\<^verbatim>\<open>removeClient\<close>, the whole body under \<^verbatim>\<open>s.mu.Lock()\<close>.\<close>

definition removeClient :: "string \<Rightarrow> 'a Server \<Rightarrow> 'a Server" where
  "removeClient cid s =
     (case map_of (clients s) cid of
        Some a \<Rightarrow>
          s\<lparr>heap := (heap s)[a := close (heap s ! a)],
            clients := AList.delete cid (clients s),
            clientsByType := map (\<lambda>(t, m). (t, AList.delete cid m)) (clientsByType s)\<rparr>
      | None \<Rightarrow> s)"

text \<open>
  The \<^verbatim>\<open>select\<close> with a send case and a \<^verbatim>\<open>default\<close>, in the order the runtime tries:
  a send on a closed channel panics; when the receiver is blocked on the channel the
  event is handed to it and it is woken, the buffer staying as it is (the only way for an
  unbuffered channel); when the buffer has room the event is appended to it; otherwise
  the default branch runs (\<open>None\<close>).
\<close>

definition receiverWaits :: "'a Client \<Rightarrow> bool" where
  "receiverWaits c = (parked c \<and> handoff c = None \<and> EventCh c = [])"

definition trySend :: "'a Client \<Rightarrow> 'a Event \<Rightarrow> panic + 'a Client option" where
  "trySend c e =
     (if closed c then Inl SendOnClosedChannel
      else if receiverWaits c then Inr (Some (c\<lparr>handoff := Some e, parked := False\<rparr>))
      else if length (EventCh c) < chcap c then Inr (Some (c\<lparr>EventCh := EventCh c @ [e]\<rparr>))
      else Inr None)"

text \<open>
  The loop of \<^verbatim>\<open>Broadcast\<close> over the entries of \<^verbatim>\<open>s.clients\<close>. The third argument is the
  store, the fourth the ids handed to \<^verbatim>\<open>go s.removeClient(client.ID)\<close> so far. A panic
  leaves the loop with what was done before it.
\<close>

fun broadcastLoop ::
  "'a Event \<Rightarrow> (string \<times> nat) list \<Rightarrow> 'a Client list \<Rightarrow> string list
    \<Rightarrow> (panic \<times> 'a Client list \<times> string list) + ('a Client list \<times> string list)" where
  "broadcastLoop event [] h sp = Inr (h, sp)"
| "broadcastLoop event ((k, a) # rest) h sp =
     (case trySend (h ! a) event of
        Inl p \<Rightarrow> Inl (p, h, sp)
      | Inr (Some c') \<Rightarrow> broadcastLoop event rest (h[a := c']) sp
      | Inr None \<Rightarrow> broadcastLoop event rest h (sp @ [clientID (h ! a)]))"

text \<open>
  \<^verbatim>\<open>Broadcast\<close>, the whole body under \<^verbatim>\<open>s.mu.RLock()\<close>. The result is the server and the
  list of removals it has scheduled; \<open>Inl\<close> is a panic, with the state it leaves behind.
\<close>

definition Broadcast ::
  "'a Event \<Rightarrow> 'a Server
    \<Rightarrow> (panic \<times> 'a Server \<times> string list) + ('a Server \<times> string list)" where
  "Broadcast event s =
     (case broadcastLoop event (clients s) (heap s) [] of
        Inl (p, h, sp) \<Rightarrow> Inl (p, s\<lparr>heap := h\<rparr>, sp)
      | Inr (h, sp) \<Rightarrow> Inr (s\<lparr>heap := h\<rparr>, sp))"

text \<open>\<^verbatim>\<open>BroadcastToType\<close> has a loop of its own in the source; \<open>eventType\<close> is not read.\<close>

fun broadcastToTypeLoop ::
  "string \<Rightarrow> 'a Event \<Rightarrow> (string \<times> nat) list \<Rightarrow> 'a Client list \<Rightarrow> string list
    \<Rightarrow> (panic \<times> 'a Client list \<times> string list) + ('a Client list \<times> string list)" where
  "broadcastToTypeLoop eventType event [] h sp = Inr (h, sp)"
| "broadcastToTypeLoop eventType event ((k, a) # rest) h sp =
     (case trySend (h ! a) event of
        Inl p \<Rightarrow> Inl (p, h, sp)
      | Inr (Some c') \<Rightarrow> broadcastToTypeLoop eventType event rest (h[a := c']) sp
      | Inr None \<Rightarrow> broadcastToTypeLoop eventType event rest h (sp @ [clientID (h ! a)]))"

definition BroadcastToType ::
  "string \<Rightarrow> 'a Event \<Rightarrow> 'a Server
    \<Rightarrow> (panic \<times> 'a Server \<times> string list) + ('a Server \<times> string list)" where
  "BroadcastToType eventType event s =
     (case broadcastToTypeLoop eventType event (clients s) (heap s) [] of
        Inl (p, h, sp) \<Rightarrow> Inl (p, s\<lparr>heap := h\<rparr>, sp)
      | Inr (h, sp) \<Rightarrow> Inr (s\<lparr>heap := h\<rparr>, sp))"

text \<open>\<^verbatim>\<open>GetConnectionCount\<close> returns \<^verbatim>\<open>len(s.clients)\<close> and the server as it found it.\<close>

definition GetConnectionCount :: "'a Server \<Rightarrow> int \<times> 'a Server" where
  "GetConnectionCount s = (int (length (clients s)), s)"

text \<open>
  \<^verbatim>\<open>Shutdown\<close>: cancel the context, close every registered client, replace both maps by
  empty ones, close \<^verbatim>\<open>s.shutdown\<close>. Closing a closed channel panics; the deferred unlock
  still runs, so the panic leaves the state reached before it.
\<close>

definition closeAll :: "(string \<times> nat) list \<Rightarrow> 'a Client list \<Rightarrow> 'a Client list" where
  "closeAll reg h = fold (\<lambda>(k, a) h'. h'[a := close (h' ! a)]) reg h"

definition Shutdown :: "'a Server \<Rightarrow> (panic \<times> 'a Server) + 'a Server" where
  "Shutdown s =
     (let s1 = s\<lparr>ctx_done := True\<rparr>;
          s2 = s1\<lparr>heap := closeAll (clients s1) (heap s1)\<rparr>;
          s3 = s2\<lparr>clients := [], clientsByType := []\<rparr>
      in if shutdown s3 then Inl (CloseOfClosedChannel, s3)
         else Inr (s3\<lparr>shutdown := True\<rparr>))"

section \<open>Accepting a connection\<close>

text \<open>\<^verbatim>\<open>fmt.Sprintf("%d", n)\<close> for an integer: decimal digits, a minus sign when negative.\<close>

function digits :: "nat \<Rightarrow> string" where
  "digits n = (if n < 10 then [char_of (48 + n)] else digits (n div 10) @ [char_of (48 + n mod 10)])"
  by pat_completeness auto
termination
  by (relation "measure id") auto

declare digits.simps [simp del]

definition Sprint_d :: "int \<Rightarrow> string" where
  "Sprint_d n = (if n < 0 then CHR ''-'' # digits (nat (- n)) else digits (nat n))"

text \<open>\<^verbatim>\<open>generateClientID\<close>; the argument is the reading of \<^verbatim>\<open>time.Now().UnixNano()\<close>.\<close>

definition generateClientID :: "int \<Rightarrow> string" where
  "generateClientID now = ''client_'' @ Sprint_d now"

text \<open>The initial event; \<open>ts\<close> is the reading of \<^verbatim>\<open>time.Now().Unix()\<close>.\<close>

definition initialEvent :: "string \<Rightarrow> int \<Rightarrow> 'a Event" where
  "initialEvent cid ts =
     \<lparr>Type = ''connection'',
      Data = GMap [(''client_id'', GString cid), (''timestamp'', GInt64 ts)],
      ID = []\<rparr>"

text \<open>The event that \<^verbatim>\<open>heartbeat\<close> broadcasts on a tick.\<close>

definition heartbeatEvent :: "int \<Rightarrow> 'a Event" where
  "heartbeatEvent ts = \<lparr>Type = ''heartbeat'', Data = GInt64 ts, ID = []\<rparr>"


text \<open>
  \<^verbatim>\<open>HandleSSE\<close> runs for the life of a connection and takes and releases locks on its
  way, so other goroutines run between its sections. \<open>hstate\<close> says how far a call has
  come. \<open>Admitted\<close>: the limit check has passed and the read lock is released.
  \<open>Registered a\<close>: the client at address \<open>a\<close> is in the map, the initial event is not yet
  sent. \<open>Greeting a ts\<close>: inside \<^verbatim>\<open>sendEventToClient\<close> for the initial event, holding
  \<^verbatim>\<open>client.mu\<close>, the \<^verbatim>\<open>conn.Write\<close> in progress. \<open>Streaming a\<close>: at the \<^verbatim>\<open>select\<close> of the loop.
  \<open>Sending a e\<close>: \<open>e\<close> has been received from the channel and \<^verbatim>\<open>sendEventToClient\<close> is
  about to run. \<open>Writing a e\<close>: inside \<^verbatim>\<open>sendEventToClient\<close> for \<open>e\<close>, holding \<^verbatim>\<open>client.mu\<close>,
  the \<^verbatim>\<open>conn.Write\<close> in progress. \<open>Leaving cid\<close>: about to call
  \<^verbatim>\<open>s.removeClient(clientID)\<close> and return, or inside that call. \<open>Finished\<close>: returned, with
  status 500, with status 503, after streaming, or by a panic.
\<close>

datatype response = StreamingUnsupported | TooManyConnections | StreamEnded | Aborted

datatype 'a hstate =
    Idle
  | Admitted
  | Registered nat
  | Greeting nat int
  | Streaming nat
  | Sending nat "'a Event"
  | Writing nat "'a Event"
  | Leaving string
  | Finished response

text \<open>
  The section to run next, with what it takes from outside: whether the response writer
  is an \<^verbatim>\<open>http.Flusher\<close>, clock readings, whether the runtime finds the memory for the
  channel's buffer, whether a write succeeds, which case of the \<^verbatim>\<open>select\<close> fires.
\<close>

datatype stage =
    Accept bool
  | Register int bool
  | Initial int
  | Park
  | Recv
  | Send
  | Written bool
  | ServerDone
  | PeerDone
  | Leave

text \<open>The receiver stops waiting on the channel at address \<open>a\<close>.\<close>

definition unpark :: "nat \<Rightarrow> 'a Server \<Rightarrow> 'a Server" where
  "unpark a s = s\<lparr>heap := (heap s)[a := (heap s ! a)\<lparr>parked := False\<rparr>]\<rparr>"

text \<open>
  One section of \<^verbatim>\<open>HandleSSE\<close>, each atomic: the flusher test and the limit check under
  the read lock; creating the client and storing it under the write lock
  (\<^verbatim>\<open>make(chan Event, n)\<close> panics for a negative \<open>n\<close> and for one beyond the runtime's
  limit, and the program dies when the memory is not there); entering
  \<^verbatim>\<open>sendEventToClient\<close> for the initial event, up to the call of \<^verbatim>\<open>conn.Write\<close> (the call
  takes \<^verbatim>\<open>client.mu\<close> and returns an error at once when the client is closed); blocking in
  the \<^verbatim>\<open>select\<close> when no case is ready; the three cases of the \<^verbatim>\<open>select\<close> (the receive
  takes the event handed over by a sender, else the oldest of the buffer; a receive from
  a closed, empty channel yields the zero event; a receiver that a sender has woken with
  an event has its \<^verbatim>\<open>select\<close> decided, the other two cases are no longer open); entering \<^verbatim>\<open>sendEventToClient\<close> for a
  received event; the return of \<^verbatim>\<open>conn.Write\<close> and the rest of \<^verbatim>\<open>sendEventToClient\<close>, which
  releases \<^verbatim>\<open>client.mu\<close>; \<^verbatim>\<open>removeClient\<close> before returning. A section whose turn it is
  not, or a case of the \<^verbatim>\<open>select\<close> that is not ready, leaves everything as it is. The
  address a call holds is that of the client it has allocated itself. Whether a section
  has to wait for \<^verbatim>\<open>s.mu\<close> is decided in \<open>step\<close> below.
\<close>

fun HandleSSE ::
  "'a stdlib \<Rightarrow> stage \<Rightarrow> 'a hstate \<Rightarrow> 'a Server \<Rightarrow> panic + ('a hstate \<times> 'a Server)" where
  "HandleSSE L (Accept flusher) h s =
     (case h of
        Idle \<Rightarrow>
          if \<not> flusher then Inr (Finished StreamingUnsupported, s)
          else if int (length (clients s)) \<ge> MaxConnections (config s)
          then Inr (Finished TooManyConnections, s)
          else Inr (Admitted, s)
      | _ \<Rightarrow> Inr (h, s))"
| "HandleSSE L (Register now mem) h s =
     (case h of
        Admitted \<Rightarrow>
          (let cid = generateClientID now in
           if BufferSize (config s) < 0 \<or> makechan_max L < BufferSize (config s)
           then Inl MakechanSizeOutOfRange
           else if \<not> mem then Inl OutOfMemory
           else
             let client = \<lparr>clientID = cid, EventCh = [], chcap = nat (BufferSize (config s)),
                           handoff = None, parked = False, mu = False, closed = False,
                           conn = []\<rparr>;
                 a = length (heap s)
             in Inr (Registered a,
                     s\<lparr>heap := heap s @ [client], clients := AList.update cid a (clients s)\<rparr>))
      | _ \<Rightarrow> Inr (h, s))"
| "HandleSSE L (Initial ts) h s =
     (case h of
        Registered a \<Rightarrow>
          (let client = heap s ! a in
           if mu client then Inr (h, s)
           else if closed client then Inr (Leaving (clientID client), s)
           else Inr (Greeting a ts, s\<lparr>heap := (heap s)[a := client\<lparr>mu := True\<rparr>]\<rparr>))
      | _ \<Rightarrow> Inr (h, s))"
| "HandleSSE L Park h s =
     (case h of
        Streaming a \<Rightarrow>
          (let client = heap s ! a in
           if EventCh client = [] \<and> handoff client = None \<and> \<not> closed client \<and> \<not> ctx_done s
           then Inr (h, s\<lparr>heap := (heap s)[a := client\<lparr>parked := True\<rparr>]\<rparr>)
           else Inr (h, s))
      | _ \<Rightarrow> Inr (h, s))"
| "HandleSSE L Recv h s =
     (case h of
        Streaming a \<Rightarrow>
          (let client = heap s ! a in
           case handoff client of
             Some event \<Rightarrow>
               Inr (Sending a event,
                    s\<lparr>heap := (heap s)[a := client\<lparr>handoff := None, parked := False\<rparr>]\<rparr>)
           | None \<Rightarrow>
               (case EventCh client of
                  [] \<Rightarrow>
                    if closed client then Inr (Sending a zeroEvent, unpark a s) else Inr (h, s)
                | event # q \<Rightarrow>
                    Inr (Sending a event,
                         s\<lparr>heap := (heap s)[a := client\<lparr>EventCh := q, parked := False\<rparr>]\<rparr>)))
      | _ \<Rightarrow> Inr (h, s))"
| "HandleSSE L Send h s =
     (case h of
        Sending a event \<Rightarrow>
          (let client = heap s ! a in
           if mu client then Inr (h, s)
           else if closed client then Inr (Leaving (clientID client), s)
           else Inr (Writing a event, s\<lparr>heap := (heap s)[a := client\<lparr>mu := True\<rparr>]\<rparr>))
      | _ \<Rightarrow> Inr (h, s))"
| "HandleSSE L (Written wok) h s =
     (case h of
        Greeting a ts \<Rightarrow>
          (let client = heap s ! a in
           case sendEventToClient L wok client (initialEvent (clientID client) ts) of
             Inl err \<Rightarrow>
               Inr (Leaving (clientID client), s\<lparr>heap := (heap s)[a := client\<lparr>mu := False\<rparr>]\<rparr>)
           | Inr client' \<Rightarrow>
               Inr (Streaming a, s\<lparr>heap := (heap s)[a := client'\<lparr>mu := False\<rparr>]\<rparr>))
      | Writing a event \<Rightarrow>
          (let client = heap s ! a in
           case sendEventToClient L wok client event of
             Inl err \<Rightarrow>
               Inr (Leaving (clientID client), s\<lparr>heap := (heap s)[a := client\<lparr>mu := False\<rparr>]\<rparr>)
           | Inr client' \<Rightarrow>
               Inr (Streaming a, s\<lparr>heap := (heap s)[a := client'\<lparr>mu := False\<rparr>]\<rparr>))
      | _ \<Rightarrow> Inr (h, s))"
| "HandleSSE L ServerDone h s =
     (case h of
        Streaming a \<Rightarrow>
          if ctx_done s \<and> handoff (heap s ! a) = None
          then Inr (Leaving (clientID (heap s ! a)), unpark a s)
          else Inr (h, s)
      | _ \<Rightarrow> Inr (h, s))"
| "HandleSSE L PeerDone h s =
     (case h of
        Streaming a \<Rightarrow>
          if handoff (heap s ! a) = None
          then Inr (Leaving (clientID (heap s ! a)), unpark a s)
          else Inr (h, s)
      | _ \<Rightarrow> Inr (h, s))"
| "HandleSSE L Leave h s =
     (case h of
        Leaving cid \<Rightarrow> Inr (Finished StreamEnded, removeClient cid s)
      | _ \<Rightarrow> Inr (h, s))"

section \<open>Goroutines, locks and their interleaving\<close>

text \<open>
  \<^verbatim>\<open>s.mu\<close> is taken for reading by the limit check, \<^verbatim>\<open>Broadcast\<close>, \<^verbatim>\<open>BroadcastToType\<close> and
  \<^verbatim>\<open>GetConnectionCount\<close>, and for writing by the registration, \<^verbatim>\<open>removeClient\<close> and
  \<^verbatim>\<open>Shutdown\<close>. No reader does anything that can wait while it holds the lock, and the
  registration does not either. \<^verbatim>\<open>removeClient\<close> and \<^verbatim>\<open>Shutdown\<close> call \<^verbatim>\<open>Client.close\<close>, which
  waits for \<^verbatim>\<open>client.mu\<close>: they are the goroutines that can hold \<^verbatim>\<open>s.mu\<close> across steps. A
  \<open>holder\<close> names such a goroutine: the call of \<^verbatim>\<open>HandleSSE\<close> with that number, inside its
  \<^verbatim>\<open>removeClient\<close>; a \<^verbatim>\<open>go s.removeClient(id)\<close>; or \<^verbatim>\<open>Shutdown\<close>, with the entries of the map
  it has still to close, the first of them being the one it waits for.
\<close>

datatype holder = ByHandler nat | ByRemover string | ByShutdown "(string \<times> nat) list"

text \<open>
  The whole program: the server, the calls of \<^verbatim>\<open>HandleSSE\<close> by number, the ids of the
  \<^verbatim>\<open>go s.removeClient(id)\<close> goroutines that have not got \<^verbatim>\<open>s.mu\<close> yet, whether the heartbeat
  goroutine, started by \<^verbatim>\<open>NewServerWithConfig\<close>, is in its loop, the panics raised so far,
  and the goroutine, if any, that holds \<^verbatim>\<open>s.mu\<close> while it waits for a client's mutex.
\<close>

record 'a System =
  srv :: "'a Server"
  handlers :: "nat \<Rightarrow> 'a hstate"
  spawned :: "string list"
  heartbeat_running :: bool
  panics :: "panic list"
  locked :: "holder option"

text \<open>
  The program once \<^verbatim>\<open>NewServerWithConfig\<close> has returned and the heartbeat goroutine has
  made its ticker: \<^verbatim>\<open>time.NewTicker\<close> panics for an interval that is not positive, and
  the goroutine never reaches its loop.
\<close>

definition boot :: "Config \<Rightarrow> 'a System" where
  "boot cfg =
     \<lparr>srv = NewServerWithConfig cfg, handlers = (\<lambda>g. Idle), spawned = [],
      heartbeat_running = (0 < HeartbeatInterval cfg),
      panics = (if 0 < HeartbeatInterval cfg then [] else [NonPositiveTickerInterval]),
      locked = None\<rparr>"

text \<open>
  The steps of the goroutines: a section of call \<open>g\<close> of \<^verbatim>\<open>HandleSSE\<close>; a call of
  \<^verbatim>\<open>Broadcast\<close> or \<^verbatim>\<open>BroadcastToType\<close>; the two cases of the \<^verbatim>\<open>select\<close> in \<^verbatim>\<open>heartbeat\<close>
  (\<open>Tick\<close>, with the reading of \<^verbatim>\<open>time.Now().Unix()\<close>, and \<open>HbStop\<close>); the \<open>i\<close>-th pending
  \<^verbatim>\<open>go s.removeClient(id)\<close> getting \<^verbatim>\<open>s.mu\<close>; \<^verbatim>\<open>Shutdown\<close>; \<^verbatim>\<open>GetConnectionCount\<close>; and the
  goroutine that holds \<^verbatim>\<open>s.mu\<close> and waits for a client's mutex trying again (\<open>Resume\<close>).

  A broadcast is one step: it holds the read lock for its whole loop, which keeps out
  every writer of the map and every \<^verbatim>\<open>close\<close>, and its send to one client's channel
  commutes with what the handlers of other clients do meanwhile. Two calls of \<^verbatim>\<open>Broadcast\<close>
  that overlap in time are not represented; a schedule orders the calls.
\<close>

datatype 'a action =
    Handler nat stage
  | Bcast "'a Event"
  | BcastType string "'a Event"
  | Tick int
  | HbStop
  | Evict nat
  | Shut
  | Count
  | Resume

definition afterBroadcast ::
  "(panic \<times> 'a Server \<times> string list) + ('a Server \<times> string list) \<Rightarrow> 'a System
    \<Rightarrow> 'a System" where
  "afterBroadcast r sys =
     (case r of
        Inl (p, s', sp) \<Rightarrow>
          sys\<lparr>srv := s', spawned := spawned sys @ sp, panics := panics sys @ [p]\<rparr>
      | Inr (s', sp) \<Rightarrow> sys\<lparr>srv := s', spawned := spawned sys @ sp\<rparr>)"

text \<open>
  A call of \<^verbatim>\<open>Broadcast\<close> or \<^verbatim>\<open>BroadcastToType\<close> by some goroutine of the program. \<open>None\<close>:
  the call is waiting at \<^verbatim>\<open>s.mu.RLock()\<close>, the lock being held for writing.
\<close>

definition callBroadcast :: "'a Event \<Rightarrow> 'a System \<Rightarrow> 'a System option" where
  "callBroadcast e sys =
     (if locked sys \<noteq> None then None else Some (afterBroadcast (Broadcast e (srv sys)) sys))"

definition callBroadcastToType :: "string \<Rightarrow> 'a Event \<Rightarrow> 'a System \<Rightarrow> 'a System option" where
  "callBroadcastToType t e sys =
     (if locked sys \<noteq> None then None
      else Some (afterBroadcast (BroadcastToType t e (srv sys)) sys))"

text \<open>The sections of \<^verbatim>\<open>HandleSSE\<close> that take \<^verbatim>\<open>s.mu\<close>.\<close>

fun usesServerLock :: "stage \<Rightarrow> bool" where
  "usesServerLock (Accept flusher) = True"
| "usesServerLock (Register now mem) = True"
| "usesServerLock Leave = True"
| "usesServerLock _ = False"

text \<open>
  \<^verbatim>\<open>removeClient(cid)\<close> has to wait inside \<^verbatim>\<open>client.close()\<close>: the id is in the map and the
  mutex of its client is held.
\<close>

definition mutexHeld :: "string \<Rightarrow> 'a Server \<Rightarrow> bool" where
  "mutexHeld cid s = (case map_of (clients s) cid of Some a \<Rightarrow> mu (heap s ! a) | None \<Rightarrow> False)"

text \<open>
  The loop of \<^verbatim>\<open>Shutdown\<close> over the entries of the map, as far as it gets without waiting:
  the store it leaves and the entries it has still to close.
\<close>

fun closeUntilHeld ::
  "(string \<times> nat) list \<Rightarrow> 'a Client list \<Rightarrow> 'a Client list \<times> (string \<times> nat) list" where
  "closeUntilHeld [] h = (h, [])"
| "closeUntilHeld ((k, a) # rest) h =
     (if mu (h ! a) then (h, (k, a) # rest) else closeUntilHeld rest (h[a := close (h ! a)]))"

text \<open>
  \<^verbatim>\<open>Shutdown\<close> from its loop on, with \<^verbatim>\<open>s.mu\<close> held and the context cancelled: it closes
  clients until it has to wait for one; when the loop is through it replaces the maps,
  closes \<^verbatim>\<open>s.shutdown\<close> and releases the lock.
\<close>

definition shutdownFrom :: "(string \<times> nat) list \<Rightarrow> 'a System \<Rightarrow> 'a System" where
  "shutdownFrom todo sys =
     (case closeUntilHeld todo (heap (srv sys)) of
        (h, rest) \<Rightarrow>
          if rest \<noteq> [] then sys\<lparr>srv := (srv sys)\<lparr>heap := h\<rparr>, locked := Some (ByShutdown rest)\<rparr>
          else
            let s3 = (srv sys)\<lparr>heap := h, clients := [], clientsByType := []\<rparr> in
            if shutdown s3
            then sys\<lparr>srv := s3, panics := panics sys @ [CloseOfClosedChannel], locked := None\<rparr>
            else sys\<lparr>srv := s3\<lparr>shutdown := True\<rparr>, locked := None\<rparr>)"

text \<open>
  One step. A step that is not enabled leaves the system as it is; so does a step that
  needs \<^verbatim>\<open>s.mu\<close> while another goroutine holds it. A panic is recorded and the program goes
  on from the state the panic left, as it does when the caller recovers (\<^verbatim>\<open>net/http\<close>
  recovers a panic of a handler and drops the connection); the states reached without
  any panic are among those reached this way. The allocation in the registration comes
  before \<^verbatim>\<open>s.mu.Lock()\<close>, so its panic does not wait for the lock.
\<close>

fun step :: "'a stdlib \<Rightarrow> 'a action \<Rightarrow> 'a System \<Rightarrow> 'a System" where
  "step L (Handler g st) sys =
     (case HandleSSE L st (handlers sys g) (srv sys) of
        Inl p \<Rightarrow>
          sys\<lparr>handlers := (handlers sys)(g := Finished Aborted), panics := panics sys @ [p]\<rparr>
      | Inr (h', s') \<Rightarrow>
          if \<not> usesServerLock st then sys\<lparr>srv := s', handlers := (handlers sys)(g := h')\<rparr>
          else if locked sys \<noteq> None \<and> locked sys \<noteq> Some (ByHandler g) then sys
          else if st = Leave then
            (case handlers sys g of
               Leaving cid \<Rightarrow>
                 if mutexHeld cid (srv sys) then sys\<lparr>locked := Some (ByHandler g)\<rparr>
                 else sys\<lparr>srv := s', handlers := (handlers sys)(g := h'), locked := None\<rparr>
             | _ \<Rightarrow> sys)
          else sys\<lparr>srv := s', handlers := (handlers sys)(g := h')\<rparr>)"
| "step L (Bcast e) sys = (case callBroadcast e sys of None \<Rightarrow> sys | Some sys' \<Rightarrow> sys')"
| "step L (BcastType t e) sys =
     (case callBroadcastToType t e sys of None \<Rightarrow> sys | Some sys' \<Rightarrow> sys')"
| "step L (Tick ts) sys =
     (if heartbeat_running sys
      then (case callBroadcast (heartbeatEvent ts) sys of None \<Rightarrow> sys | Some sys' \<Rightarrow> sys')
      else sys)"
| "step L HbStop sys =
     (if ctx_done (srv sys) then sys\<lparr>heartbeat_running := False\<rparr> else sys)"
| "step L (Evict i) sys =
     (if locked sys \<noteq> None \<or> \<not> i < length (spawned sys) then sys
      else
        let cid = spawned sys ! i;
            sys1 = sys\<lparr>spawned := take i (spawned sys) @ drop (Suc i) (spawned sys)\<rparr>
        in if mutexHeld cid (srv sys) then sys1\<lparr>locked := Some (ByRemover cid)\<rparr>
           else sys1\<lparr>srv := removeClient cid (srv sys)\<rparr>)"
| "step L Shut sys =
     (if locked sys \<noteq> None then sys
      else shutdownFrom (clients (srv sys)) (sys\<lparr>srv := (srv sys)\<lparr>ctx_done := True\<rparr>\<rparr>))"
| "step L Count sys =
     (if locked sys \<noteq> None then sys else sys\<lparr>srv := snd (GetConnectionCount (srv sys))\<rparr>)"
| "step L Resume sys =
     (case locked sys of
        Some (ByShutdown todo) \<Rightarrow> shutdownFrom todo sys
      | Some (ByRemover cid) \<Rightarrow>
          if mutexHeld cid (srv sys) then sys
          else sys\<lparr>srv := removeClient cid (srv sys), locked := None\<rparr>
      | _ \<Rightarrow> sys)"

text \<open>A run is a schedule of steps.\<close>

fun run :: "'a stdlib \<Rightarrow> 'a action list \<Rightarrow> 'a System \<Rightarrow> 'a System" where
  "run L [] sys = sys"
| "run L (x # xs) sys = run L xs (step L x sys)"

text \<open>
  The events passed to \<^verbatim>\<open>Broadcast\<close> or \<^verbatim>\<open>BroadcastToType\<close> in the course of a
  schedule, in the order in which the calls got the lock; a tick counts while the
  heartbeat goroutine is in its loop.
\<close>

fun broadcastOf :: "'a System \<Rightarrow> 'a action \<Rightarrow> 'a Event list" where
  "broadcastOf sys (Bcast e) = (if locked sys = None then [e] else [])"
| "broadcastOf sys (BcastType t e) = (if locked sys = None then [e] else [])"
| "broadcastOf sys (Tick ts) =
     (if heartbeat_running sys \<and> locked sys = None then [heartbeatEvent ts] else [])"
| "broadcastOf sys _ = []"

fun broadcasts :: "'a stdlib \<Rightarrow> 'a action list \<Rightarrow> 'a System \<Rightarrow> 'a Event list" where
  "broadcasts L [] sys = []"
| "broadcasts L (x # xs) sys = broadcastOf sys x @ broadcasts L xs (step L x sys)"

section \<open>Auxiliary notions for the properties\<close>

text \<open>The client that an address denotes.\<close>

definition clientAt :: "'a System \<Rightarrow> nat \<Rightarrow> 'a Client" where
  "clientAt sys a = heap (srv sys) ! a"

text \<open>
  A client's channel is full: the buffer holds as many events as its capacity and the
  receiver is not waiting. The send of a broadcast to a channel that is not full.
\<close>

definition full :: "'a Client \<Rightarrow> bool" where
  "full c = (chcap c \<le> length (EventCh c) \<and> \<not> receiverWaits c)"

definition enqueue :: "'a Event \<Rightarrow> 'a Client \<Rightarrow> 'a Client" where
  "enqueue e c =
     (if receiverWaits c then c\<lparr>handoff := Some e, parked := False\<rparr>
      else c\<lparr>EventCh := EventCh c @ [e]\<rparr>)"

text \<open>The events sent to a client's channel and not yet received, oldest first.\<close>

definition pending :: "'a Client \<Rightarrow> 'a Event list" where
  "pending c = (case handoff c of Some e \<Rightarrow> [e] | None \<Rightarrow> []) @ EventCh c"

text \<open>
  The registry is consistent: its keys are distinct, and every entry points to an
  allocated client that is open and carries the key as its id.
\<close>

definition registry_ok :: "'a Server \<Rightarrow> bool" where
  "registry_ok s =
     (distinct (map fst (clients s)) \<and>
      list_all (\<lambda>(k, a). a < length (heap s) \<and> \<not> closed (heap s ! a) \<and> clientID (heap s ! a) = k)
        (clients s))"

text \<open>\<^verbatim>\<open>Shutdown\<close> holds \<^verbatim>\<open>s.mu\<close>, part of the way through its loop.\<close>

definition shutting :: "'a System \<Rightarrow> bool" where
  "shutting sys = (case locked sys of Some (ByShutdown todo) \<Rightarrow> True | _ \<Rightarrow> False)"

text \<open>The server that a broadcast leaves behind, whether it returned or panicked.\<close>

definition serverOf ::
  "(panic \<times> 'a Server \<times> string list) + ('a Server \<times> string list) \<Rightarrow> 'a Server" where
  "serverOf r = (case r of Inl (p, s, sp) \<Rightarrow> s | Inr (s, sp) \<Rightarrow> s)"

text \<open>Calling \<^verbatim>\<open>Shutdown\<close> and, when it has returned, calling it again.\<close>

definition shutdownTwice :: "'a Server \<Rightarrow> (panic \<times> 'a Server) + 'a Server" where
  "shutdownTwice s = (case Shutdown s of Inl e \<Rightarrow> Inl e | Inr s' \<Rightarrow> Shutdown s')"

text \<open>The connection count after a schedule.\<close>

definition countAfter :: "'a stdlib \<Rightarrow> 'a action list \<Rightarrow> 'a System \<Rightarrow> int" where
  "countAfter L xs sys = fst (GetConnectionCount (srv (run L xs sys)))"

text \<open>
  What can be seen after a schedule: the panics raised, the registry, and how far the
  listed calls of \<^verbatim>\<open>HandleSSE\<close> have come.
\<close>

definition outcome ::
  "'a stdlib \<Rightarrow> 'a action list \<Rightarrow> 'a System \<Rightarrow> nat list
    \<Rightarrow> panic list \<times> (string \<times> nat) list \<times> 'a hstate list" where
  "outcome L xs sys gs =
     (let sys' = run L xs sys in (panics sys', clients (srv sys'), map (handlers sys') gs))"

subsection \<open>Invariants of the interleaving\<close>

text \<open>
  The client a call of \<^verbatim>\<open>HandleSSE\<close> holds, the event it has taken off the channel, and
  the client whose initial event it has still to write.
\<close>

fun addrOf :: "'a hstate \<Rightarrow> nat option" where
  "addrOf (Registered a) = Some a"
| "addrOf (Greeting a ts) = Some a"
| "addrOf (Streaming a) = Some a"
| "addrOf (Sending a e) = Some a"
| "addrOf (Writing a e) = Some a"
| "addrOf _ = None"

fun inflight :: "'a hstate \<Rightarrow> nat \<Rightarrow> 'a Event list" where
  "inflight (Sending a' e) a = (if a' = a then [e] else [])"
| "inflight (Writing a' e) a = (if a' = a then [e] else [])"
| "inflight _ a = []"

fun greets :: "'a hstate \<Rightarrow> nat option" where
  "greets (Registered a) = Some a"
| "greets (Greeting a ts) = Some a"
| "greets _ = None"

text \<open>
  Every call holds an allocated client, no two calls hold the same one (a channel has
  one consumer), and nothing has been written to a client whose initial event is due.
\<close>

definition handlers_ok :: "'a System \<Rightarrow> bool" where
  "handlers_ok sys =
     ((\<forall>g a. addrOf (handlers sys g) = Some a \<longrightarrow> a < length (heap (srv sys)))
      \<and> (\<forall>g g' a. addrOf (handlers sys g) = Some a \<longrightarrow> addrOf (handlers sys g') = Some a
            \<longrightarrow> g = g')
      \<and> (\<forall>g a. greets (handlers sys g) = Some a \<longrightarrow> conn (heap (srv sys) ! a) = []))"

text \<open>
  The history of one client against the events \<open>B\<close> broadcast so far: what has been
  written is the initial event (if sent) and then events \<open>ds\<close>; and \<open>ds\<close>, followed by the
  event in flight and the events pending on the channel, is a subsequence of \<open>B\<close> as long
  as the client is open.
\<close>

definition fifo_client ::
  "'a stdlib \<Rightarrow> 'a Event list \<Rightarrow> 'a Client \<Rightarrow> 'a Event list \<Rightarrow> bool" where
  "fifo_client L B c infl =
     (\<exists>pre ds. conn c = map (eventStr L) (pre @ ds)
        \<and> (pre = [] \<or> (\<exists>ts. pre = [initialEvent (clientID c) ts]))
        \<and> subseq ds B
        \<and> (\<not> closed c \<longrightarrow> subseq (ds @ infl @ pending c) B))"

definition fifo_ok :: "'a stdlib \<Rightarrow> 'a Event list \<Rightarrow> 'a System \<Rightarrow> bool" where
  "fifo_ok L B sys =
     (\<forall>a < length (heap (srv sys)). \<forall>g.
        fifo_client L B (heap (srv sys) ! a) (inflight (handlers sys g) a))"

text \<open>
  The registry is consistent whenever \<^verbatim>\<open>Shutdown\<close> is not in the middle of closing its
  clients (which it does with \<^verbatim>\<open>s.mu\<close> held, before it empties the map).
\<close>

definition sys_inv :: "'a stdlib \<Rightarrow> 'a Event list \<Rightarrow> 'a System \<Rightarrow> bool" where
  "sys_inv L B sys =
     ((shutting sys \<or> registry_ok (srv sys)) \<and> handlers_ok sys \<and> fifo_ok L B sys)"

text \<open>
  A removal that is stuck behind a write: \<^verbatim>\<open>removeClient(cid)\<close> holds \<^verbatim>\<open>s.mu\<close> and waits in
  \<^verbatim>\<open>client.close()\<close> for the mutex of the client at \<open>a\<close>, which call \<open>g\<close> of \<^verbatim>\<open>HandleSSE\<close>
  holds inside \<^verbatim>\<open>sendEventToClient\<close>, its \<^verbatim>\<open>conn.Write\<close> not having returned.
\<close>

definition stalled :: "nat \<Rightarrow> string \<Rightarrow> nat \<Rightarrow> 'a System \<Rightarrow> bool" where
  "stalled g cid a sys =
     (locked sys = Some (ByRemover cid) \<and> map_of (clients (srv sys)) cid = Some a
      \<and> mu (heap (srv sys) ! a)
      \<and> ((\<exists>e. handlers sys g = Writing a e) \<or> (\<exists>ts. handlers sys g = Greeting a ts))
      \<and> (\<forall>g'. g' \<noteq> g \<longrightarrow> addrOf (handlers sys g') \<noteq> Some a))"

subsection \<open>Concrete inputs for running the model\<close>

text \<open>
  A stub for the library and the runtime, a configuration, an event, and a schedule with
  the state it ends in: the first client has received two broadcasts and its channel of
  capacity 1 holds a third; the second client has just been registered.
\<close>

definition demoLib :: "unit stdlib" where
  "demoLib = \<lparr>json_Marshal = (\<lambda>d. Some ''{}''), fmt_Sprint_v = (\<lambda>d. ''?''),
     makechan_max = 5864062014803\<rparr>"

definition demoConfig :: "int \<Rightarrow> int \<Rightarrow> Config" where
  "demoConfig m b =
     \<lparr>MaxConnections = m, RetryTimeout = 3000, HeartbeatInterval = 30000000000, BufferSize = b\<rparr>"

definition demoEvent :: "string \<Rightarrow> unit Event" where
  "demoEvent d = \<lparr>Type = ''x'', Data = GString d, ID = ''7''\<rparr>"

definition demoSchedule :: "unit action list" where
  "demoSchedule =
     [Handler 0 (Accept True), Handler 0 (Register 100 True),
      Handler 0 (Initial 5), Handler 0 (Written True),
      Bcast (demoEvent ''a''), Handler 0 Recv, Handler 0 Send, Handler 0 (Written True),
      Bcast (demoEvent ''b''), Handler 0 Recv, Handler 0 Send, Handler 0 (Written True),
      Bcast (demoEvent ''c''),
      Handler 1 (Accept True), Handler 1 (Register 101 True)]"

definition demoClient0 :: "unit Client" where
  "demoClient0 =
     \<lparr>clientID = ''client_100'', EventCh = [demoEvent ''c''], chcap = 1, handoff = None,
      parked = False, mu = False, closed = False,
      conn = [''event: connection\<newline>data: {}\<newline>\<newline>'',
              ''id: 7\<newline>event: x\<newline>data: a\<newline>\<newline>'',
              ''id: 7\<newline>event: x\<newline>data: b\<newline>\<newline>'']\<rparr>"

definition demoClient1 :: "unit Client" where
  "demoClient1 =
     \<lparr>clientID = ''client_101'', EventCh = [], chcap = 1, handoff = None, parked = False,
      mu = False, closed = False, conn = []\<rparr>"

definition demoServer :: "unit Server" where
  "demoServer =
     \<lparr>config = demoConfig 2 1, clients = [(''client_100'', 0), (''client_101'', 1)],
      clientsByType = [], shutdown = False, ctx_done = False,
      heap = [demoClient0, demoClient1]\<rparr>"




definition demoFinal :: "unit System" where
  "demoFinal =
     \<lparr>srv = demoServer, handlers = (\<lambda>g. Idle)(0 := Streaming 0, 1 := Registered 1),
      spawned = [], heartbeat_running = True, panics = [], locked = None\<rparr>"

text \<open>
  A slow consumer. Two clients connect to a server with buffers of one event. The peer of
  the first stops reading while the first broadcast is being written to it: its call of
  \<^verbatim>\<open>sendEventToClient\<close> stays in \<^verbatim>\<open>conn.Write\<close>, holding \<^verbatim>\<open>client.mu\<close>. The second client
  keeps up. The second broadcast fills the buffer of the first client, the third finds it
  full and starts \<^verbatim>\<open>go s.removeClient\<close>, which takes \<^verbatim>\<open>s.mu\<close> and waits in \<^verbatim>\<open>client.close()\<close>.
\<close>

definition slowSchedule :: "unit action list" where
  "slowSchedule =
     [Handler 0 (Accept True), Handler 0 (Register 100 True),
      Handler 0 (Initial 5), Handler 0 (Written True),
      Handler 1 (Accept True), Handler 1 (Register 101 True),
      Handler 1 (Initial 5), Handler 1 (Written True),
      Bcast (demoEvent ''a''),
      Handler 0 Recv, Handler 0 Send,
      Handler 1 Recv, Handler 1 Send, Handler 1 (Written True),
      Bcast (demoEvent ''b''),
      Handler 1 Recv, Handler 1 Send, Handler 1 (Written True),
      Bcast (demoEvent ''c''),
      Handler 1 Recv, Handler 1 Send, Handler 1 (Written True),
      Evict 0]"

definition slowClient0 :: "unit Client" where
  "slowClient0 =
     \<lparr>clientID = ''client_100'', EventCh = [demoEvent ''b''], chcap = 1, handoff = None,
      parked = False, mu = True, closed = False,
      conn = [''event: connection\<newline>data: {}\<newline>\<newline>'']\<rparr>"

definition slowClient1 :: "unit Client" where
  "slowClient1 =
     \<lparr>clientID = ''client_101'', EventCh = [], chcap = 1, handoff = None, parked = False,
      mu = False, closed = False,
      conn = [''event: connection\<newline>data: {}\<newline>\<newline>'',
              ''id: 7\<newline>event: x\<newline>data: a\<newline>\<newline>'',
              ''id: 7\<newline>event: x\<newline>data: b\<newline>\<newline>'',
              ''id: 7\<newline>event: x\<newline>data: c\<newline>\<newline>'']\<rparr>"

definition slowFinal :: "unit System" where
  "slowFinal =
     \<lparr>srv = \<lparr>config = demoConfig 2 1, clients = [(''client_100'', 0), (''client_101'', 1)],
             clientsByType = [], shutdown = False, ctx_done = False,
             heap = [slowClient0, slowClient1]\<rparr>,
      handlers = (\<lambda>g. Idle)(0 := Writing 0 (demoEvent ''a''), 1 := Streaming 1),
      spawned = [], heartbeat_running = True, panics = [],
      locked = Some (ByRemover ''client_100'')\<rparr>"

text \<open>
  A library stub that follows \<^verbatim>\<open>encoding/json\<close> on the values it is used with: the nil
  interface is encoded as \<^verbatim>\<open>null\<close>, and a value of a type that JSON does not have (a
  channel, say, which \<^verbatim>\<open>%v\<close> prints as its address) is an error.
\<close>

definition jsonLib :: "unit stdlib" where
  "jsonLib =
     \<lparr>json_Marshal = (\<lambda>d. case d of GNil \<Rightarrow> Some ''null'' | GOther x \<Rightarrow> None | _ \<Rightarrow> Some ''{}''),
      fmt_Sprint_v = (\<lambda>d. ''0xc00001c0c0''), makechan_max = 5864062014803\<rparr>"

text \<open>
  The wire grammar in the words of the specification, to compare \<open>eventStr\<close> with. A
  byte payload read as text is the same bytes: each character has the eight bits of its
  byte.
\<close>

definition spec_char_of_byte :: "8 word \<Rightarrow> char" where
  "spec_char_of_byte w =
     Char (bit w 0) (bit w 1) (bit w 2) (bit w 3) (bit w 4) (bit w 5) (bit w 6) (bit w 7)"

definition spec_payload_text :: "'a stdlib \<Rightarrow> 'a gval \<Rightarrow> string" where
  "spec_payload_text L d =
     (case d of
        GString t \<Rightarrow> t
      | GBytes b \<Rightarrow> map spec_char_of_byte b
      | other \<Rightarrow> (case json_Marshal L other of
                    None \<Rightarrow> fmt_Sprint_v L other
                  | Some encoded \<Rightarrow> encoded))"

definition spec_wire_format :: "'a stdlib \<Rightarrow> 'a Event \<Rightarrow> string" where
  "spec_wire_format L e =
     (if ID e = [] then [] else ''id: '' @ ID e @ ''\<newline>'') @
     (if Type e = [] then [] else ''event: '' @ Type e @ ''\<newline>'') @
     ''data: '' @ spec_payload_text L (Data e) @ ''\<newline>\<newline>''"

section \<open>Event serialisation\<close>

lemma char_of_byte: "char_of (unat (w :: 8 word)) = spec_char_of_byte w"
  by (simp add: spec_char_of_byte_def char_of_def bit_unsigned_iff)

lemma string_of_bytes_spec: "string_of_bytes b = map spec_char_of_byte b"
  by (simp add: string_of_bytes_def char_of_byte)

lemma unat_byte: "unat (w :: 8 word) mod 256 = unat w"
  using unsigned_less [of w, where 'a = nat] by simp

lemma of_char_string_of_bytes: "map of_char (string_of_bytes b) = (map unat b :: nat list)"
  by (simp add: string_of_bytes_def unat_byte comp_def)

lemma string_of_bytes_hi: "string_of_bytes [0x68, 0x69] = ''hi''"
  by code_simp

lemma dataStr_spec: "dataStr L d = spec_payload_text L d"
  by (cases d) (auto simp: dataStr_def spec_payload_text_def string_of_bytes_spec split: option.splits)

lemma eventStr_spec: "eventStr L e = spec_wire_format L e"
  by (simp add: eventStr_def spec_wire_format_def dataStr_spec)

text \<open>
  Claim C5. For every event the string written is the wire grammar: an id line only for a
  non-empty id, an event line only for a non-empty type, then the data line and an empty
  line; a string payload is passed through; a byte payload becomes the text that has
  exactly those bytes, one character for each byte and with the value of that byte; any
  other payload is JSON or, when encoding fails, the \<^verbatim>\<open>%v\<close> rendering. On an open client
  whose write succeeds the call returns no error whatever the payload is, and appends
  exactly that string to the connection. The event with type x, data hello and id 7 gives
  \<^verbatim>\<open>id: 7\nevent: x\ndata: hello\n\n\<close>, and an event with nothing but the two bytes
  \<^verbatim>\<open>0x68 0x69\<close> as payload gives \<^verbatim>\<open>data: hi\n\n\<close>.
\<close>

theorem C5_wire_format:
  "eventStr L e = spec_wire_format L e
   \<and> dataStr L (GString t) = t
   \<and> dataStr L (GBytes b) = map spec_char_of_byte b
   \<and> map of_char (dataStr L (GBytes b)) = (map unat b :: nat list)
   \<and> sendEventToClient L True (c\<lparr>closed := False\<rparr>) e
       = Inr (c\<lparr>closed := False, conn := conn c @ [spec_wire_format L e]\<rparr>)
   \<and> eventStr L \<lparr>Type = ''x'', Data = GString ''hello'', ID = ''7''\<rparr>
       = ''id: 7\<newline>event: x\<newline>data: hello\<newline>\<newline>''
   \<and> eventStr L \<lparr>Type = [], Data = GBytes [0x68, 0x69], ID = []\<rparr> = ''data: hi\<newline>\<newline>''"
proof -
  have 1: "dataStr L (GBytes b) = map spec_char_of_byte b"
    by (simp add: dataStr_def string_of_bytes_spec)
  have 2: "map of_char (dataStr L (GBytes b)) = (map unat b :: nat list)"
    by (simp add: dataStr_def of_char_string_of_bytes)
  have 3: "sendEventToClient L True (c\<lparr>closed := False\<rparr>) e
       = Inr (c\<lparr>closed := False, conn := conn c @ [spec_wire_format L e]\<rparr>)"
    by (simp add: sendEventToClient_def eventStr_spec)
  have 4: "eventStr L \<lparr>Type = ''x'', Data = GString ''hello'', ID = ''7''\<rparr>
       = ''id: 7\<newline>event: x\<newline>data: hello\<newline>\<newline>''"
    by (simp add: eventStr_def dataStr_def)
  have 5: "eventStr L \<lparr>Type = [], Data = GBytes [0x68, 0x69], ID = []\<rparr> = ''data: hi\<newline>\<newline>''"
    by (simp add: eventStr_def dataStr_def string_of_bytes_hi)
  show ?thesis
    using eventStr_spec [of L e] 1 2 3 4 5 by (simp add: dataStr_def)
qed

theorem C5_wire_format_witness:
  "eventStr jsonLib \<lparr>Type = [], Data = GNil, ID = []\<rparr> = ''data: null\<newline>\<newline>''
   \<and> eventStr jsonLib \<lparr>Type = ''x'', Data = GOther (), ID = []\<rparr>
       = ''event: x\<newline>data: 0xc00001c0c0\<newline>\<newline>''
   \<and> sendEventToClient jsonLib True demoClient1 \<lparr>Type = ''x'', Data = GOther (), ID = []\<rparr>
       = Inr (demoClient1\<lparr>conn := [''event: x\<newline>data: 0xc00001c0c0\<newline>\<newline>'']\<rparr>)
   \<and> dataStr jsonLib (GBytes [0xE2, 0x82, 0xAC]) = [CHR 0xE2, CHR 0x82, CHR 0xAC]"
  using C5_wire_format [of jsonLib "\<lparr>Type = [], Data = GNil, ID = []\<rparr>"]
    C5_wire_format [of jsonLib "\<lparr>Type = ''x'', Data = GOther (), ID = []\<rparr>" _
      "[0xE2, 0x82, 0xAC]" demoClient1]
  by (simp add: spec_wire_format_def spec_payload_text_def jsonLib_def demoClient1_def
      spec_char_of_byte_def)

section \<open>The two broadcast entry points\<close>

lemma broadcastToTypeLoop_eq:
  "broadcastToTypeLoop t e reg h sp = broadcastLoop e reg h sp"
  by (induction reg arbitrary: h sp) (auto split: sum.splits option.splits)

text \<open>
  Claim C4. For every type string, event and server state, \<^verbatim>\<open>BroadcastToType\<close> does what
  \<^verbatim>\<open>Broadcast\<close> does: the same clients get the event, the same removals are scheduled, the
  same panic (if any) is raised; the type string plays no part.
\<close>

theorem C4_BroadcastToType_is_Broadcast: "BroadcastToType t e s = Broadcast e s"
  by (simp add: BroadcastToType_def Broadcast_def broadcastToTypeLoop_eq)

section \<open>Removing a client\<close>

lemma close_idem: "close (close c) = close c"
  by (simp add: close_def)

lemma closed_close: "closed (close c)"
  by (simp add: close_def)

lemma conn_close [simp]: "conn (close c) = conn c"
  by (simp add: close_def)

lemma mu_close [simp]: "mu (close c) = mu c"
  by (simp add: close_def)

lemma clientID_close [simp]: "clientID (close c) = clientID c"
  by (simp add: close_def)

lemma removeClient_absent: "map_of (clients s) cid = None \<Longrightarrow> removeClient cid s = s"
  by (simp add: removeClient_def)

lemma removeClient_clients: "clients (removeClient cid s) = AList.delete cid (clients s)"
  by (auto simp: removeClient_def split: option.splits simp: map_of_eq_None_iff)

lemma map_of_removeClient: "map_of (clients (removeClient cid s)) cid = None"
  by (simp add: removeClient_clients delete_conv')

lemma removeClient_idem: "removeClient cid (removeClient cid s) = removeClient cid s"
  by (rule removeClient_absent) (rule map_of_removeClient)

lemma removeClient_closes:
  "map_of (clients s) cid = Some a \<Longrightarrow> a < length (heap s) \<Longrightarrow>
     closed (heap (removeClient cid s) ! a)"
  by (simp add: removeClient_def closed_close)

text \<open>
  Claim C8. Removing an id that is registered closes that client and deletes the id from
  the map, leaving every other id as it was; removing the same id again changes nothing;
  removing an id that is not in the map changes nothing. \<open>removeClient\<close> has no failing
  branch: the close is guarded by the client's flag.
\<close>

theorem C8_removeClient_idempotent:
  "(map_of (clients s) cid = Some a \<and> a < length (heap s) \<longrightarrow>
      closed (heap (removeClient cid s) ! a)
      \<and> map_of (clients (removeClient cid s)) cid = None
      \<and> (\<forall>k. k \<noteq> cid \<longrightarrow> map_of (clients (removeClient cid s)) k = map_of (clients s) k))
   \<and> removeClient cid (removeClient cid s) = removeClient cid s
   \<and> (map_of (clients s) cid = None \<longrightarrow> removeClient cid s = s)"
  by (auto simp: removeClient_closes map_of_removeClient removeClient_idem removeClient_absent
      removeClient_clients delete_conv')

theorem C8_removeClient_idempotent_witness:
  "map_of (clients demoServer) ''client_100'' = Some 0 \<and> 0 < length (heap demoServer)
   \<and> closed (heap (removeClient ''client_100'' demoServer) ! 0)
   \<and> clients (removeClient ''client_100'' demoServer) = [(''client_101'', 1)]
   \<and> removeClient ''client_100'' (removeClient ''client_100'' demoServer)
       = removeClient ''client_100'' demoServer
   \<and> map_of (clients demoServer) ''client_7'' = None
   \<and> removeClient ''client_7'' demoServer = demoServer"
  using C8_removeClient_idempotent [of demoServer "''client_100''" 0]
    C8_removeClient_idempotent [of demoServer "''client_7''" 0]
  by (simp add: demoServer_def demoClient0_def removeClient_def close_def)

section \<open>Shutdown\<close>

lemma generateClientID_100: "generateClientID 100 = ''client_100''"
  by code_simp

lemma generateClientID_101: "generateClientID 101 = ''client_101''"
  by code_simp

lemma closeAll_Nil [simp]: "closeAll [] h = h"
  by (simp add: closeAll_def)

text \<open>
  Claim C2, which the code does not meet. Whatever the state of the server, calling
  \<^verbatim>\<open>Shutdown\<close> and then calling it again ends in the panic of closing the closed channel
  \<^verbatim>\<open>s.shutdown\<close> (raised by the first call already if the server had been shut down
  before). The state left behind has an empty registry and every registered client
  closed, as after one call.
\<close>

theorem C2_second_Shutdown_panics:
  "shutdownTwice s = Inl (CloseOfClosedChannel,
     s\<lparr>ctx_done := True, heap := closeAll (clients s) (heap s), clients := [],
       clientsByType := [], shutdown := True\<rparr>)"
  by (cases "shutdown s") (simp_all add: shutdownTwice_def Shutdown_def Let_def)

theorem C2_second_Shutdown_panics_witness:
  "shutdownTwice demoServer = Inl (CloseOfClosedChannel,
     demoServer\<lparr>ctx_done := True,
       heap := [demoClient0\<lparr>closed := True\<rparr>, demoClient1\<lparr>closed := True\<rparr>],
       clients := [], clientsByType := [], shutdown := True\<rparr>)"
  using C2_second_Shutdown_panics [of demoServer]
  by (simp add: demoServer_def demoClient0_def demoClient1_def closeAll_def close_def)

section \<open>The registry invariant\<close>

lemma registry_okD:
  "registry_ok s \<Longrightarrow> (k, a) \<in> set (clients s) \<Longrightarrow>
     a < length (heap s) \<and> \<not> closed (heap s ! a) \<and> clientID (heap s ! a) = k"
  by (auto simp: registry_ok_def list_all_iff)

lemma registry_ok_iff:
  "registry_ok s \<longleftrightarrow>
     distinct (map fst (clients s)) \<and>
     (\<forall>(k, a) \<in> set (clients s).
        a < length (heap s) \<and> \<not> closed (heap s ! a) \<and> clientID (heap s ! a) = k)"
  by (simp add: registry_ok_def list_all_iff)

lemma registry_ok_distinct_addr:
  assumes "registry_ok s"
  shows "distinct (map snd (clients s))"
proof -
  have d: "distinct (map fst (clients s))"
    using assms by (simp add: registry_ok_iff)
  have eq: "map fst (clients s) = map (\<lambda>p. clientID (heap s ! snd p)) (clients s)"
    using assms by (auto simp: registry_ok_iff)
  have "distinct (map (\<lambda>p. clientID (heap s ! snd p)) (clients s))"
    using d eq by simp
  then have "distinct (map ((\<lambda>a. clientID (heap s ! a)) \<circ> snd) (clients s))"
    by (simp add: comp_def)
  then show ?thesis
    by (metis distinct_map map_map)
qed

lemma set_update_subset: "set (AList.update k v al) \<subseteq> insert (k, v) (set al)"
  by (induction al) auto

lemma set_delete_subset: "set (AList.delete k al) \<subseteq> {p \<in> set al. fst p \<noteq> k}"
  by (auto simp: AList.delete_eq)

lemma registry_ok_new: "registry_ok (NewServerWithConfig cfg)"
  by (simp add: registry_ok_def NewServerWithConfig_def)

lemma registry_ok_register:
  assumes "registry_ok s" "\<not> closed c"
  shows "registry_ok (s\<lparr>heap := heap s @ [c],
            clients := AList.update (clientID c) (length (heap s)) (clients s)\<rparr>)"
    (is "registry_ok ?s'")
proof -
  have "distinct (map fst (clients ?s'))"
    using assms(1) by (simp add: registry_ok_iff distinct_update)
  moreover have "a' < length (heap ?s') \<and> \<not> closed (heap ?s' ! a') \<and> clientID (heap ?s' ! a') = k"
    if "(k, a') \<in> set (clients ?s')" for k a'
  proof -
    from that have "(k, a') = (clientID c, length (heap s)) \<or> (k, a') \<in> set (clients s)"
      using set_update_subset [of "clientID c" "length (heap s)" "clients s"] by auto
    then show ?thesis
    proof
      assume "(k, a') = (clientID c, length (heap s))"
      then show ?thesis using assms(2) by simp
    next
      assume "(k, a') \<in> set (clients s)"
      from registry_okD [OF assms(1) this] show ?thesis
        by (simp add: nth_append)
    qed
  qed
  ultimately show ?thesis
    by (auto simp: registry_ok_iff)
qed

lemma registry_ok_removeClient:
  assumes "registry_ok s"
  shows "registry_ok (removeClient cid s)"
proof (cases "map_of (clients s) cid")
  case None
  then show ?thesis using assms by (simp add: removeClient_def)
next
  case (Some a)
  then have mem: "(cid, a) \<in> set (clients s)"
    by (rule map_of_SomeD)
  from registry_okD [OF assms mem] have ida: "clientID (heap s ! a) = cid" by simp
  let ?s' = "removeClient cid s"
  have heap': "heap ?s' = (heap s)[a := close (heap s ! a)]"
    and cl': "clients ?s' = AList.delete cid (clients s)"
    using Some by (simp_all add: removeClient_def)
  have "distinct (map fst (clients ?s'))"
    using assms by (simp add: cl' registry_ok_iff distinct_delete)
  moreover have "a' < length (heap ?s') \<and> \<not> closed (heap ?s' ! a') \<and> clientID (heap ?s' ! a') = k"
    if "(k, a') \<in> set (clients ?s')" for k a'
  proof -
    from that have m: "(k, a') \<in> set (clients s)" and ne: "k \<noteq> cid"
      using set_delete_subset [of cid "clients s"] by (auto simp: cl')
    from registry_okD [OF assms m] have p: "a' < length (heap s)" "\<not> closed (heap s ! a')"
      "clientID (heap s ! a') = k" by simp_all
    with ne ida have "a' \<noteq> a" by auto
    with p show ?thesis by (simp add: heap')
  qed
  ultimately show ?thesis
    by (auto simp: registry_ok_iff)
qed

lemma registry_ok_heap_cong:
  assumes "registry_ok s" "length h = length (heap s)"
    "\<And>a. a < length h \<Longrightarrow>
       closed (h ! a) = closed (heap s ! a) \<and> clientID (h ! a) = clientID (heap s ! a)"
  shows "registry_ok (s\<lparr>heap := h\<rparr>)"
  using assms by (auto simp: registry_ok_iff)

lemma registry_ok_list_update:
  assumes "registry_ok s" "closed c' = closed (heap s ! a)" "clientID c' = clientID (heap s ! a)"
  shows "registry_ok (s\<lparr>heap := (heap s)[a := c']\<rparr>)"
proof (rule registry_ok_heap_cong [OF assms(1)])
  show "length ((heap s)[a := c']) = length (heap s)" by simp
next
  fix b
  assume "b < length ((heap s)[a := c'])"
  then show "closed ((heap s)[a := c'] ! b) = closed (heap s ! b) \<and>
      clientID ((heap s)[a := c'] ! b) = clientID (heap s ! b)"
    by (cases "b = a") (simp_all add: assms)
qed

section \<open>What a broadcast does\<close>

lemma broadcastLoop_open:
  assumes "\<forall>(k, a) \<in> set reg. a < length h \<and> \<not> closed (h ! a)"
    and "distinct (map snd reg)"
  shows "\<exists>h'. broadcastLoop e reg h sp
            = Inr (h', sp @ map (\<lambda>(k, a). clientID (h ! a)) (filter (\<lambda>(k, a). full (h ! a)) reg))
          \<and> length h' = length h
          \<and> (\<forall>b < length h. h' ! b =
                (if b \<in> snd ` set reg \<and> \<not> full (h ! b) then enqueue e (h ! b) else h ! b))"
  using assms
proof (induction reg arbitrary: h sp)
  case Nil
  then show ?case by simp
next
  case (Cons p reg)
  obtain k a where p: "p = (k, a)" by (cases p)
  from Cons.prems p have a: "a < length h" "\<not> closed (h ! a)"
    and rest: "\<forall>(k', a') \<in> set reg. a' < length h \<and> \<not> closed (h ! a')"
    and fresh: "a \<notin> snd ` set reg" and dist: "distinct (map snd reg)"
    by auto
  show ?case
  proof (cases "full (h ! a)")
    case True
    then have ts: "trySend (h ! a) e = Inr None"
      using a by (auto simp: trySend_def full_def)
    from Cons.IH [OF rest dist, of "sp @ [clientID (h ! a)]"]
    obtain h' where h': "broadcastLoop e reg h (sp @ [clientID (h ! a)])
          = Inr (h', (sp @ [clientID (h ! a)]) @
                 map (\<lambda>(k, a). clientID (h ! a)) (filter (\<lambda>(k, a). full (h ! a)) reg))"
      "length h' = length h"
      "\<forall>b < length h. h' ! b =
          (if b \<in> snd ` set reg \<and> \<not> full (h ! b) then enqueue e (h ! b) else h ! b)"
      by blast
    show ?thesis
      using h' True ts by (auto simp: p intro!: exI [of _ h'])
  next
    case False
    let ?h1 = "h[a := enqueue e (h ! a)]"
    from False
    have ts: "trySend (h ! a) e = Inr (Some (enqueue e (h ! a)))"
      using a by (auto simp: trySend_def full_def enqueue_def)
    have same: "?h1 ! a' = h ! a'" if "(k', a') \<in> set reg" for k' a'
      using that fresh by (metis image_eqI nth_list_update_neq snd_conv)
    have rest1: "\<forall>(k', a') \<in> set reg. a' < length ?h1 \<and> \<not> closed (?h1 ! a')"
      using rest same by auto
    have f1: "filter (\<lambda>(k, a). full (?h1 ! a)) reg = filter (\<lambda>(k, a). full (h ! a)) reg"
      by (rule filter_cong) (auto simp: same)
    have m1: "map (\<lambda>(k, a). clientID (?h1 ! a)) (filter (\<lambda>(k, a). full (h ! a)) reg)
        = map (\<lambda>(k, a). clientID (h ! a)) (filter (\<lambda>(k, a). full (h ! a)) reg)"
      by (rule map_cong) (auto simp: same)
    from Cons.IH [OF rest1 dist, of sp]
    obtain h' where h': "broadcastLoop e reg ?h1 sp
          = Inr (h', sp @ map (\<lambda>(k, a). clientID (h ! a)) (filter (\<lambda>(k, a). full (h ! a)) reg))"
      "length h' = length h"
      "\<forall>b < length h. h' ! b =
          (if b \<in> snd ` set reg \<and> \<not> full (?h1 ! b) then enqueue e (?h1 ! b) else ?h1 ! b)"
      by (auto simp: f1 m1)
    have "h' ! b = (if b \<in> snd ` set (p # reg) \<and> \<not> full (h ! b) then enqueue e (h ! b) else h ! b)"
      if "b < length h" for b
    proof (cases "b = a")
      case True
      then show ?thesis using h'(3) that fresh False by (simp add: p)
    next
      case ne: False
      then have "?h1 ! b = h ! b" by simp
      then show ?thesis using h'(3) that ne by (simp add: p)
    qed
    then show ?thesis
      using h' False ts by (auto simp: p intro!: exI [of _ h'])
  qed
qed

lemma Broadcast_ok:
  assumes "registry_ok s"
  shows "\<exists>h'. Broadcast e s
            = Inr (s\<lparr>heap := h'\<rparr>, map fst (filter (\<lambda>(k, a). full (heap s ! a)) (clients s)))
          \<and> length h' = length (heap s)
          \<and> (\<forall>b < length (heap s). h' ! b =
                (if b \<in> snd ` set (clients s) \<and> \<not> full (heap s ! b) then enqueue e (heap s ! b)
                 else heap s ! b))"
proof -
  have 1: "\<forall>(k, a) \<in> set (clients s). a < length (heap s) \<and> \<not> closed (heap s ! a)"
    using assms by (auto simp: registry_ok_iff)
  have m: "map (\<lambda>(k, a). clientID (heap s ! a)) (filter (\<lambda>(k, a). full (heap s ! a)) (clients s))
      = map fst (filter (\<lambda>(k, a). full (heap s ! a)) (clients s))"
    by (rule map_cong) (use assms in \<open>auto simp: registry_ok_iff\<close>)
  from broadcastLoop_open [OF 1 registry_ok_distinct_addr [OF assms], of e "[]"]
  obtain h' where h': "broadcastLoop e (clients s) (heap s) []
        = Inr (h', map fst (filter (\<lambda>(k, a). full (heap s ! a)) (clients s)))"
    "length h' = length (heap s)"
    "\<forall>b < length (heap s). h' ! b =
        (if b \<in> snd ` set (clients s) \<and> \<not> full (heap s ! b) then enqueue e (heap s ! b)
         else heap s ! b)"
    by (auto simp: m)
  show ?thesis
    by (rule exI [of _ h']) (simp add: Broadcast_def h')
qed

lemma registry_ok_Broadcast:
  assumes "registry_ok s" "Broadcast e s = Inr (s', sp)"
  shows "registry_ok s'"
proof -
  from Broadcast_ok [OF assms(1), of e] assms(2)
  obtain h' where s': "s' = s\<lparr>heap := h'\<rparr>" and len: "length h' = length (heap s)"
    and pt: "\<forall>b < length (heap s). h' ! b =
                (if b \<in> snd ` set (clients s) \<and> \<not> full (heap s ! b) then enqueue e (heap s ! b)
                 else heap s ! b)"
    by auto
  show ?thesis
    unfolding s'
    by (rule registry_ok_heap_cong [OF assms(1) len]) (simp add: pt len enqueue_def)
qed

section \<open>The registry invariant holds in every reachable state\<close>

lemma sendEventToClient_Inr:
  "sendEventToClient L wok c e = Inr c' \<Longrightarrow>
     \<not> closed c \<and> wok \<and> c' = c\<lparr>conn := conn c @ [eventStr L e]\<rparr>"
  by (auto simp: sendEventToClient_def split: if_splits)

lemma registry_ok_HandleSSE:
  assumes "registry_ok s" "HandleSSE L st h s = Inr (h', s')"
  shows "registry_ok s'"
proof (cases st)
  case (Accept fl)
  then show ?thesis using assms by (auto split: hstate.splits if_splits)
next
  case (Register now mem)
  show ?thesis
  proof (cases "h = Admitted")
    case True
    let ?c = "\<lparr>clientID = generateClientID now, EventCh = [],
               chcap = nat (BufferSize (config s)), handoff = None, parked = False,
               mu = False, closed = False, conn = []\<rparr> :: 'a Client"
    from True Register assms(2)
    have "s' = s\<lparr>heap := heap s @ [?c],
                 clients := AList.update (clientID ?c) (length (heap s)) (clients s)\<rparr>"
      by (auto simp: Let_def split: if_splits)
    then show ?thesis
      using registry_ok_register [OF assms(1), of ?c] by simp
  next
    case False
    then show ?thesis using Register assms by (auto split: hstate.splits)
  qed
next
  case (Initial ts)
  then show ?thesis using assms
    by (auto simp: Let_def split: hstate.splits if_splits intro!: registry_ok_list_update)
next
  case Park
  then show ?thesis using assms
    by (auto simp: Let_def split: hstate.splits if_splits intro!: registry_ok_list_update)
next
  case Recv
  then show ?thesis using assms
    by (auto simp: Let_def unpark_def split: hstate.splits list.splits option.splits if_splits
        intro!: registry_ok_list_update)
next
  case Send
  then show ?thesis using assms
    by (auto simp: Let_def split: hstate.splits if_splits intro!: registry_ok_list_update)
next
  case (Written wok)
  then show ?thesis using assms
    by (auto simp: Let_def split: hstate.splits sum.splits
        dest!: sendEventToClient_Inr intro!: registry_ok_list_update)
next
  case ServerDone
  then show ?thesis using assms
    by (auto simp: unpark_def split: hstate.splits if_splits intro!: registry_ok_list_update)
next
  case PeerDone
  then show ?thesis using assms
    by (auto simp: unpark_def split: hstate.splits if_splits intro!: registry_ok_list_update)
next
  case Leave
  then show ?thesis using assms
    by (auto split: hstate.splits intro: registry_ok_removeClient)
qed

lemma locked_afterBroadcast [simp]: "locked (afterBroadcast r sys) = locked sys"
  by (auto simp: afterBroadcast_def split: sum.splits)

lemma handlers_afterBroadcast [simp]: "handlers (afterBroadcast r sys) = handlers sys"
  by (auto simp: afterBroadcast_def split: sum.splits)

lemma registry_ok_afterBroadcast:
  assumes "registry_ok (srv sys)"
  shows "registry_ok (srv (afterBroadcast (Broadcast e (srv sys)) sys))"
proof -
  from Broadcast_ok [OF assms, of e] obtain s' sp where b: "Broadcast e (srv sys) = Inr (s', sp)"
    by blast
  from registry_ok_Broadcast [OF assms b] show ?thesis
    by (simp add: afterBroadcast_def b)
qed

lemma step_BcastType: "step L (BcastType t e) sys = step L (Bcast e) sys"
  by (simp add: callBroadcastToType_def callBroadcast_def BroadcastToType_def Broadcast_def
      broadcastToTypeLoop_eq)

lemma Shutdown_state:
  assumes "Shutdown s = Inr s' \<or> Shutdown s = Inl (p, s')"
  shows "clients s' = [] \<and> heap s' = closeAll (clients s) (heap s)"
  using assms by (auto simp: Shutdown_def Let_def split: if_splits)

lemma registry_ok_empty: "clients s = [] \<Longrightarrow> registry_ok s"
  by (simp add: registry_ok_def)

lemma shutdownFrom_cases:
  "(\<exists>h rest. rest \<noteq> [] \<and> closeUntilHeld todo (heap (srv sys)) = (h, rest)
        \<and> shutdownFrom todo sys
            = sys\<lparr>srv := (srv sys)\<lparr>heap := h\<rparr>, locked := Some (ByShutdown rest)\<rparr>)
   \<or> (\<exists>h. closeUntilHeld todo (heap (srv sys)) = (h, [])
        \<and> clients (srv (shutdownFrom todo sys)) = []
        \<and> heap (srv (shutdownFrom todo sys)) = h
        \<and> handlers (shutdownFrom todo sys) = handlers sys
        \<and> locked (shutdownFrom todo sys) = None)"
  by (cases "closeUntilHeld todo (heap (srv sys))")
    (auto simp: shutdownFrom_def Let_def)

lemma shutdownFrom_reg:
  "shutting (shutdownFrom todo sys) \<or> registry_ok (srv (shutdownFrom todo sys))"
  using shutdownFrom_cases [of todo sys]
  by (auto simp: shutting_def registry_ok_empty)

text \<open>
  When no registered client's mutex is held, the step of \<^verbatim>\<open>Shutdown\<close> is the function
  \<open>Shutdown\<close>, and the step of a removal is the function \<open>removeClient\<close>.
\<close>

lemma nth_close_update:
  "h[a := close (h ! a)] ! b = (if b = a \<and> a < length h then close (h ! b) else h ! b)"
  by (cases "a < length h") (auto simp: nth_list_update list_update_beyond)

lemma closeUntilHeld_free:
  "\<forall>(k, a) \<in> set reg. \<not> mu (h ! a) \<Longrightarrow> closeUntilHeld reg h = (closeAll reg h, [])"
proof (induction reg arbitrary: h)
  case Nil
  then show ?case by simp
next
  case (Cons p reg)
  obtain k a where p: "p = (k, a)" by (cases p)
  have "\<not> mu (h[a := close (h ! a)] ! a')" if "(k', a') \<in> set reg" for k' a'
  proof -
    from that Cons.prems have "\<not> mu (h ! a')" by auto
    then show ?thesis
      by (auto simp: nth_close_update)
  qed
  then have "closeUntilHeld reg (h[a := close (h ! a)])
      = (closeAll reg (h[a := close (h ! a)]), [])"
    by (intro Cons.IH) auto
  then show ?case
    using Cons.prems by (simp add: p closeAll_def)
qed

lemma step_Shut_free:
  assumes "locked sys = None" "\<forall>(k, a) \<in> set (clients (srv sys)). \<not> mu (heap (srv sys) ! a)"
  shows "step L Shut sys =
     (case Shutdown (srv sys) of
        Inl (p, s') \<Rightarrow> sys\<lparr>srv := s', panics := panics sys @ [p]\<rparr>
      | Inr s' \<Rightarrow> sys\<lparr>srv := s'\<rparr>)"
  using assms closeUntilHeld_free [of "clients (srv sys)" "heap (srv sys)"]
  by (simp add: shutdownFrom_def Shutdown_def Let_def)

lemma step_Evict_free:
  assumes "locked sys = None" "i < length (spawned sys)"
    "\<not> mutexHeld (spawned sys ! i) (srv sys)"
  shows "step L (Evict i) sys
     = sys\<lparr>srv := removeClient (spawned sys ! i) (srv sys),
           spawned := take i (spawned sys) @ drop (Suc i) (spawned sys)\<rparr>"
  using assms by (simp add: Let_def)

lemma reg_inv_step:
  assumes "shutting sys \<or> registry_ok (srv sys)"
  shows "shutting (step L x sys) \<or> registry_ok (srv (step L x sys))"
proof (cases x)
  case (Handler g st)
  show ?thesis
  proof (cases "HandleSSE L st (handlers sys g) (srv sys)")
    case (Inl p)
    then show ?thesis using assms by (simp add: Handler shutting_def)
  next
    case (Inr r)
    obtain h' s' where r: "r = (h', s')" by (cases r)
    have ok: "registry_ok (srv sys) \<Longrightarrow> registry_ok s'"
      using registry_ok_HandleSSE Inr r by blast
    show ?thesis
    proof (cases "shutting sys")
      case True
      then show ?thesis
        by (auto simp: Handler Inr r shutting_def split: option.splits holder.splits hstate.splits)
    next
      case False
      with assms have "registry_ok (srv sys)" by simp
      with ok show ?thesis
        by (auto simp: Handler Inr r split: hstate.splits)
    qed
  qed
next
  case (Bcast e)
  then show ?thesis using assms registry_ok_afterBroadcast [of sys e]
    by (auto simp: callBroadcast_def shutting_def)
next
  case (BcastType t e)
  then show ?thesis using assms registry_ok_afterBroadcast [of sys e]
    by (auto simp only: step_BcastType step.simps callBroadcast_def shutting_def
        split: if_splits option.splits)
next
  case (Tick ts)
  then show ?thesis using assms registry_ok_afterBroadcast [of sys "heartbeatEvent ts"]
    by (auto simp: callBroadcast_def shutting_def)
next
  case HbStop
  then show ?thesis using assms by (auto simp: shutting_def)
next
  case (Evict i)
  then show ?thesis using assms
    by (auto simp: shutting_def Let_def registry_ok_removeClient)
next
  case Shut
  then show ?thesis using assms shutdownFrom_reg by auto
next
  case Count
  then show ?thesis using assms by (auto simp: GetConnectionCount_def shutting_def)
next
  case Resume
  show ?thesis
  proof (cases "locked sys")
    case None
    then show ?thesis using assms Resume by simp
  next
    case (Some hd)
    show ?thesis
    proof (cases hd)
      case (ByHandler g)
      then show ?thesis using assms Resume Some by simp
    next
      case (ByRemover cid)
      then have "registry_ok (srv sys)"
        using assms Some by (simp add: shutting_def)
      then show ?thesis
        using Resume Some ByRemover by (auto simp: registry_ok_removeClient)
    next
      case (ByShutdown todo)
      then show ?thesis
        using Resume Some shutdownFrom_reg [of todo sys] by simp
    qed
  qed
qed

lemma reg_inv_run:
  "shutting sys \<or> registry_ok (srv sys) \<Longrightarrow>
     shutting (run L xs sys) \<or> registry_ok (srv (run L xs sys))"
  by (induction xs arbitrary: sys) (simp_all add: reg_inv_step)

lemma reg_inv_reachable:
  "shutting (run L xs (boot cfg)) \<or> registry_ok (srv (run L xs (boot cfg)))"
  by (rule reg_inv_run) (simp add: boot_def registry_ok_new)

section \<open>After Shutdown\<close>










section \<open>Running the concrete schedules\<close>

lemma demo_run: "run demoLib demoSchedule (boot (demoConfig 2 1)) = demoFinal"
  by (simp add: demoSchedule_def demoFinal_def demoServer_def demoClient0_def demoClient1_def
      boot_def NewServerWithConfig_def demoConfig_def generateClientID_100
      generateClientID_101 sendEventToClient_def eventStr_def dataStr_def initialEvent_def
      demoLib_def demoEvent_def afterBroadcast_def callBroadcast_def Broadcast_def trySend_def
      receiverWaits_def unpark_def Let_def)

lemma slow_run: "run demoLib slowSchedule (boot (demoConfig 2 1)) = slowFinal"
  by (simp add: slowSchedule_def slowFinal_def slowClient0_def slowClient1_def
      boot_def NewServerWithConfig_def demoConfig_def generateClientID_100
      generateClientID_101 sendEventToClient_def eventStr_def dataStr_def initialEvent_def
      demoLib_def demoEvent_def afterBroadcast_def callBroadcast_def Broadcast_def trySend_def
      receiverWaits_def unpark_def mutexHeld_def Let_def)

lemma run_append: "run L (xs @ ys) sys = run L ys (run L xs sys)"
  by (induction xs arbitrary: sys) simp_all

section \<open>Broadcast and slow consumers\<close>

text \<open>
  What a call of \<^verbatim>\<open>Broadcast\<close> does once it has the read lock, in any state the program can
  reach: it returns normally; a client whose channel is full is left untouched and its id
  is handed to a separate \<^verbatim>\<open>removeClient\<close> goroutine; every other registered client gets
  the event; the map is not changed.
\<close>

lemma Broadcast_with_lock:
  assumes "locked (run L xs (boot cfg)) = None"
  shows "\<exists>s'. Broadcast e (srv (run L xs (boot cfg)))
          = Inr (s', map fst (filter (\<lambda>(k, a). full (clientAt (run L xs (boot cfg)) a))
                   (clients (srv (run L xs (boot cfg))))))
        \<and> clients s' = clients (srv (run L xs (boot cfg)))
        \<and> (\<forall>(k, a) \<in> set (clients (srv (run L xs (boot cfg)))).
              heap s' ! a = (if full (clientAt (run L xs (boot cfg)) a)
                             then clientAt (run L xs (boot cfg)) a
                             else enqueue e (clientAt (run L xs (boot cfg)) a)))"
proof -
  define sys where "sys = run L xs (boot cfg)"
  have ok: "registry_ok (srv sys)"
    using reg_inv_reachable [of L xs cfg] assms unfolding sys_def by (simp add: shutting_def)
  from Broadcast_ok [OF ok, of e]
  obtain h' where h': "Broadcast e (srv sys)
        = Inr ((srv sys)\<lparr>heap := h'\<rparr>,
               map fst (filter (\<lambda>(k, a). full (heap (srv sys) ! a)) (clients (srv sys))))"
    "\<forall>b < length (heap (srv sys)). h' ! b =
        (if b \<in> snd ` set (clients (srv sys)) \<and> \<not> full (heap (srv sys) ! b)
         then enqueue e (heap (srv sys) ! b) else heap (srv sys) ! b)"
    by blast
  have "h' ! a = (if full (clientAt sys a) then clientAt sys a else enqueue e (clientAt sys a))"
    if "(k, a) \<in> set (clients (srv sys))" for k a
  proof -
    from registry_okD [OF ok that] have "a < length (heap (srv sys))" by simp
    moreover have "a \<in> snd ` set (clients (srv sys))"
      using that by force
    ultimately show ?thesis
      using h'(2) by (simp add: clientAt_def)
  qed
  then have "\<exists>s'. Broadcast e (srv sys)
          = Inr (s', map fst (filter (\<lambda>(k, a). full (clientAt sys a)) (clients (srv sys))))
        \<and> clients s' = clients (srv sys)
        \<and> (\<forall>(k, a) \<in> set (clients (srv sys)).
              heap s' ! a = (if full (clientAt sys a) then clientAt sys a
                             else enqueue e (clientAt sys a)))"
    using h'(1)
    by (intro exI [of _ "(srv sys)\<lparr>heap := h'\<rparr>"]) (auto simp: clientAt_def)
  then show ?thesis
    unfolding sys_def .
qed

text \<open>
  A section of \<^verbatim>\<open>HandleSSE\<close> that does not take \<^verbatim>\<open>s.mu\<close> touches the client of its own call
  only, and a call that is inside a write does nothing until the write returns.
\<close>

lemma HandleSSE_own_client:
  assumes "HandleSSE L st h s = Inr (h', s')" "\<not> usesServerLock st" "addrOf h \<noteq> Some b"
  shows "clients s' = clients s \<and> heap s' ! b = heap s ! b \<and> addrOf h' \<noteq> Some b"
proof (cases st)
  case (Accept fl)
  then show ?thesis using assms by simp
next
  case (Register now mem)
  then show ?thesis using assms by simp
next
  case (Initial ts)
  then show ?thesis using assms
    by (auto simp: Let_def split: hstate.splits if_splits)
next
  case Park
  then show ?thesis using assms
    by (auto simp: Let_def split: hstate.splits if_splits)
next
  case Recv
  then show ?thesis using assms
    by (auto simp: Let_def unpark_def split: hstate.splits if_splits option.splits list.splits)
next
  case Send
  then show ?thesis using assms
    by (auto simp: Let_def split: hstate.splits if_splits)
next
  case (Written wok)
  then show ?thesis using assms
    by (auto simp: Let_def split: hstate.splits sum.splits)
next
  case ServerDone
  then show ?thesis using assms
    by (auto simp: unpark_def split: hstate.splits if_splits)
next
  case PeerDone
  then show ?thesis using assms
    by (auto simp: unpark_def split: hstate.splits if_splits)
next
  case Leave
  then show ?thesis using assms by simp
qed

lemma HandleSSE_in_write:
  assumes "\<forall>wok. st \<noteq> Written wok" "(\<exists>e. h = Writing a e) \<or> (\<exists>ts. h = Greeting a ts)"
  shows "HandleSSE L st h s = Inr (h, s)"
  using assms by (cases st) auto

lemma stalled_step:
  assumes st: "stalled g cid a sys" and x: "\<forall>wok. x \<noteq> Handler g (Written wok)"
  shows "stalled g cid a (step L x sys)"
proof (cases x)
  case (Handler g' stg)
  from st have lk: "locked sys = Some (ByRemover cid)"
    by (simp add: stalled_def)
  show ?thesis
  proof (cases "g' = g")
    case True
    with x Handler have "\<forall>wok. stg \<noteq> Written wok" by auto
    moreover from st have "(\<exists>e. handlers sys g = Writing a e) \<or> (\<exists>ts. handlers sys g = Greeting a ts)"
      by (simp add: stalled_def)
    ultimately have "HandleSSE L stg (handlers sys g) (srv sys) = Inr (handlers sys g, srv sys)"
      by (rule HandleSSE_in_write)
    then have "step L x sys = sys"
      using lk by (auto simp: Handler True split: hstate.splits)
    then show ?thesis using st by simp
  next
    case False
    then have other: "addrOf (handlers sys g') \<noteq> Some a"
      using st by (simp add: stalled_def)
    show ?thesis
    proof (cases "HandleSSE L stg (handlers sys g') (srv sys)")
      case (Inl p)
      then show ?thesis
        using st False by (auto simp: Handler stalled_def)
    next
      case (Inr r)
      obtain h' s' where r: "r = (h', s')" by (cases r)
      show ?thesis
      proof (cases "usesServerLock stg")
        case True
        then have "step L x sys = sys"
          using lk by (simp add: Handler Inr r)
        then show ?thesis using st by simp
      next
        case nolock: False
        from HandleSSE_own_client [OF Inr [unfolded r] nolock other]
        have fr: "clients s' = clients (srv sys)" "heap s' ! a = heap (srv sys) ! a"
          "addrOf h' \<noteq> Some a"
          by simp_all
        have "step L x sys = sys\<lparr>srv := s', handlers := (handlers sys)(g' := h')\<rparr>"
          using nolock by (simp add: Handler Inr r)
        then show ?thesis
          using st False fr by (auto simp: stalled_def)
      qed
    qed
  qed
next
  case (Bcast e)
  then show ?thesis using st by (simp add: stalled_def callBroadcast_def)
next
  case (BcastType t e)
  then show ?thesis using st by (simp add: stalled_def callBroadcastToType_def)
next
  case (Tick ts)
  then show ?thesis using st by (simp add: stalled_def callBroadcast_def)
next
  case HbStop
  then show ?thesis using st by (simp add: stalled_def)
next
  case (Evict i)
  then show ?thesis using st by (simp add: stalled_def)
next
  case Shut
  then show ?thesis using st by (simp add: stalled_def)
next
  case Count
  then show ?thesis using st by (simp add: stalled_def)
next
  case Resume
  then show ?thesis using st by (simp add: stalled_def mutexHeld_def)
qed

lemma stalled_run:
  "stalled g cid a sys \<Longrightarrow> \<forall>x \<in> set ys. \<forall>wok. x \<noteq> Handler g (Written wok) \<Longrightarrow>
     stalled g cid a (run L ys sys)"
  by (induction ys arbitrary: sys) (simp_all add: stalled_step)

lemma stalled_slowFinal: "stalled 0 ''client_100'' 0 slowFinal"
  by (simp add: stalled_def slowFinal_def slowClient0_def)

text \<open>
  Claim C6, which the code does not meet: a call of \<^verbatim>\<open>Broadcast\<close> can wait for a slow
  consumer. Take the schedule \<open>slowSchedule\<close>: the peer of the first client has stopped
  reading, so that the write of an event to it does not return; two more broadcasts fill
  its channel and schedule its removal; the removal takes \<^verbatim>\<open>s.mu\<close> and waits for
  \<^verbatim>\<open>client.mu\<close>, which the write holds. From then on, whatever the program does, as long as
  that write has not returned, every call of \<^verbatim>\<open>Broadcast\<close> and of \<^verbatim>\<open>BroadcastToType\<close> waits
  at \<^verbatim>\<open>s.mu.RLock()\<close> and delivers nothing, to the second client, which keeps up, either.
\<close>

theorem C6_broadcast_waits_behind_slow_consumer:
  assumes "\<forall>x \<in> set ys. \<forall>wok. x \<noteq> Handler 0 (Written wok)"
  shows "callBroadcast e (run demoLib (slowSchedule @ ys) (boot (demoConfig 2 1))) = None
     \<and> callBroadcastToType t e (run demoLib (slowSchedule @ ys) (boot (demoConfig 2 1))) = None
     \<and> step demoLib (Bcast e) (run demoLib (slowSchedule @ ys) (boot (demoConfig 2 1)))
         = run demoLib (slowSchedule @ ys) (boot (demoConfig 2 1))
     \<and> locked (run demoLib (slowSchedule @ ys) (boot (demoConfig 2 1)))
         = Some (ByRemover ''client_100'')
     \<and> handlers (run demoLib (slowSchedule @ ys) (boot (demoConfig 2 1))) 0
         = Writing 0 (demoEvent ''a'')"
proof -
  define sys where "sys = run demoLib ys slowFinal"
  have sys: "run demoLib (slowSchedule @ ys) (boot (demoConfig 2 1)) = sys"
    by (simp add: run_append slow_run sys_def)
  have "stalled 0 ''client_100'' 0 sys"
    unfolding sys_def using stalled_slowFinal assms by (rule stalled_run)
  then have lk: "locked sys = Some (ByRemover ''client_100'')"
    and h: "(\<exists>e. handlers sys 0 = Writing 0 e) \<or> (\<exists>ts. handlers sys 0 = Greeting 0 ts)"
    by (simp_all add: stalled_def)
  have same: "handlers (run demoLib ys' slowFinal) 0 = Writing 0 (demoEvent ''a'')"
    if "\<forall>x \<in> set ys'. \<forall>wok. x \<noteq> Handler 0 (Written wok)" for ys'
    using that
  proof (induction ys' rule: rev_induct)
    case Nil
    then show ?case by (simp add: slowFinal_def)
  next
    case (snoc x ys')
    then have ih: "handlers (run demoLib ys' slowFinal) 0 = Writing 0 (demoEvent ''a'')"
      and nx: "\<forall>wok. x \<noteq> Handler 0 (Written wok)"
      and pre: "\<forall>x \<in> set ys'. \<forall>wok. x \<noteq> Handler 0 (Written wok)"
      by simp_all
    have stl: "stalled 0 ''client_100'' 0 (run demoLib ys' slowFinal)"
      using stalled_slowFinal pre by (rule stalled_run)
    then have lk': "locked (run demoLib ys' slowFinal) = Some (ByRemover ''client_100'')"
      by (simp add: stalled_def)
    have "handlers (step demoLib x (run demoLib ys' slowFinal)) 0 = Writing 0 (demoEvent ''a'')"
    proof (cases x)
      case (Handler g' stg)
      show ?thesis
      proof (cases "g' = 0")
        case True
        with nx Handler have "\<forall>wok. stg \<noteq> Written wok" by auto
        then have "HandleSSE demoLib stg (Writing 0 (demoEvent ''a'')) (srv (run demoLib ys' slowFinal))
            = Inr (Writing 0 (demoEvent ''a''), srv (run demoLib ys' slowFinal))"
          by (intro HandleSSE_in_write) auto
        then show ?thesis
          using ih lk' by (auto simp: Handler True)
      next
        case False
        then show ?thesis
          using ih lk' by (auto simp: Handler split: sum.splits hstate.splits)
      qed
    next
      case Resume
      then show ?thesis using ih lk' stl by (simp add: stalled_def mutexHeld_def)
    qed (use ih lk' in \<open>simp_all add: callBroadcast_def callBroadcastToType_def\<close>)
    then show ?case by (simp add: run_append)
  qed
  from same [OF assms] have h0: "handlers sys 0 = Writing 0 (demoEvent ''a'')"
    by (simp add: sys_def)
  show ?thesis
    unfolding sys using lk h0 by (simp add: callBroadcast_def callBroadcastToType_def)
qed

theorem C6_broadcast_waits_behind_slow_consumer_witness:
  "run demoLib slowSchedule (boot (demoConfig 2 1)) = slowFinal
   \<and> panics slowFinal = []
   \<and> callBroadcast (demoEvent ''d'') slowFinal = None
   \<and> callBroadcastToType ''x'' (demoEvent ''d'') slowFinal = None
   \<and> callBroadcast (demoEvent ''d'')
       (run demoLib
          (slowSchedule @ [Bcast (demoEvent ''d''), Handler 1 Park, Tick 7, Resume, Count,
             Handler 2 (Accept True), Handler 0 PeerDone, Shut])
          (boot (demoConfig 2 1))) = None
   \<and> clientAt (run demoLib
          (slowSchedule @ [Bcast (demoEvent ''d''), Handler 1 Park, Tick 7, Resume, Count,
             Handler 2 (Accept True), Handler 0 PeerDone, Shut])
          (boot (demoConfig 2 1))) 1 = slowClient1\<lparr>parked := True\<rparr>
   \<and> clientAt (run demoLib (slowSchedule @ [Handler 0 (Written True), Resume,
          Bcast (demoEvent ''d'')]) (boot (demoConfig 2 1))) 1
       = slowClient1\<lparr>EventCh := [demoEvent ''d'']\<rparr>"
proof -
  have 0: "panics slowFinal = []"
    by (simp add: slowFinal_def)
  have "callBroadcast (demoEvent ''d'') (run demoLib (slowSchedule @ []) (boot (demoConfig 2 1))) = None
      \<and> callBroadcastToType ''x'' (demoEvent ''d'')
          (run demoLib (slowSchedule @ []) (boot (demoConfig 2 1))) = None"
    using C6_broadcast_waits_behind_slow_consumer [of "[]" "demoEvent ''d''" "''x''"]
    by simp
  then have 1: "callBroadcast (demoEvent ''d'') slowFinal = None"
    and 2: "callBroadcastToType ''x'' (demoEvent ''d'') slowFinal = None"
    by (simp_all only: append_Nil2 slow_run)
  have 3: "callBroadcast (demoEvent ''d'')
       (run demoLib
          (slowSchedule @ [Bcast (demoEvent ''d''), Handler 1 Park, Tick 7, Resume, Count,
             Handler 2 (Accept True), Handler 0 PeerDone, Shut])
          (boot (demoConfig 2 1))) = None"
    using C6_broadcast_waits_behind_slow_consumer [of
        "[Bcast (demoEvent ''d''), Handler 1 Park, Tick 7, Resume, Count,
          Handler 2 (Accept True), Handler 0 PeerDone, Shut]" "demoEvent ''d''" "''x''"]
    by simp
  have 4: "clientAt (run demoLib
          (slowSchedule @ [Bcast (demoEvent ''d''), Handler 1 Park, Tick 7, Resume, Count,
             Handler 2 (Accept True), Handler 0 PeerDone, Shut])
          (boot (demoConfig 2 1))) 1 = slowClient1\<lparr>parked := True\<rparr>"
    by code_simp
  have 5: "clientAt (run demoLib (slowSchedule @ [Handler 0 (Written True), Resume,
          Bcast (demoEvent ''d'')]) (boot (demoConfig 2 1))) 1
       = slowClient1\<lparr>EventCh := [demoEvent ''d'']\<rparr>"
    by code_simp
  show ?thesis
    by (intro conjI slow_run 0 1 2 3 4 5)
qed

lemma Broadcast_frame: "\<exists>h. serverOf (Broadcast e s) = s\<lparr>heap := h\<rparr>"
  by (auto simp: Broadcast_def serverOf_def split: sum.splits)

lemma BroadcastToType_frame: "\<exists>h. serverOf (BroadcastToType t e s) = s\<lparr>heap := h\<rparr>"
  by (auto simp: BroadcastToType_def serverOf_def split: sum.splits)

text \<open>
  Claim C10. Whatever the state and however the call ends, the server that \<^verbatim>\<open>Broadcast\<close>
  or \<^verbatim>\<open>BroadcastToType\<close> leaves behind has the map, the configuration and the connection
  count it started with: the calls touch the channels of clients only, and removals are
  merely scheduled. \<^verbatim>\<open>GetConnectionCount\<close> returns the server unchanged, and as a step of
  the program it changes nothing at all.
\<close>

theorem C10_broadcast_frame:
  "clients (serverOf (Broadcast e s)) = clients s
   \<and> config (serverOf (Broadcast e s)) = config s
   \<and> fst (GetConnectionCount (serverOf (Broadcast e s))) = fst (GetConnectionCount s)
   \<and> clients (serverOf (BroadcastToType t e s)) = clients s
   \<and> config (serverOf (BroadcastToType t e s)) = config s
   \<and> fst (GetConnectionCount (serverOf (BroadcastToType t e s))) = fst (GetConnectionCount s)
   \<and> snd (GetConnectionCount s) = s
   \<and> step L Count sys = sys"
proof -
  obtain h where h: "serverOf (Broadcast e s) = s\<lparr>heap := h\<rparr>"
    using Broadcast_frame by blast
  obtain h' where h': "serverOf (BroadcastToType t e s) = s\<lparr>heap := h'\<rparr>"
    using BroadcastToType_frame by blast
  show ?thesis
    by (simp add: h h' GetConnectionCount_def)
qed

theorem C10_broadcast_frame_witness:
  "serverOf (Broadcast (demoEvent ''d'') demoServer)
     = demoServer\<lparr>heap := [demoClient0, enqueue (demoEvent ''d'') demoClient1]\<rparr>
   \<and> clients (serverOf (Broadcast (demoEvent ''d'') demoServer)) = clients demoServer
   \<and> fst (GetConnectionCount (serverOf (Broadcast (demoEvent ''d'') demoServer))) = 2
   \<and> GetConnectionCount demoServer = (2, demoServer)"
  using C10_broadcast_frame [of "demoEvent ''d''" demoServer "''x''" demoLib demoFinal]
  by (simp add: demoServer_def demoClient0_def demoClient1_def Broadcast_def trySend_def
      receiverWaits_def enqueue_def serverOf_def GetConnectionCount_def)

section \<open>The connection limit and the client ids\<close>

text \<open>
  Claim C1, which the code does not meet. With \<^verbatim>\<open>MaxConnections = 1\<close>, two calls of
  \<^verbatim>\<open>HandleSSE\<close> that both pass the limit check before either stores its client leave two
  clients registered: the check and the insertion are two critical sections. When the
  second call checks after the first has stored its client, it is refused.
\<close>

theorem C1_limit_exceeded_by_interleaving:
  "outcome demoLib
      [Handler 0 (Accept True), Handler 1 (Accept True),
       Handler 0 (Register 100 True), Handler 1 (Register 101 True)]
      (boot (demoConfig 1 1024)) [0, 1]
     = ([], [(''client_100'', 0), (''client_101'', 1)], [Registered 0, Registered 1])
   \<and> countAfter demoLib
      [Handler 0 (Accept True), Handler 1 (Accept True),
       Handler 0 (Register 100 True), Handler 1 (Register 101 True)]
      (boot (demoConfig 1 1024)) = 2
   \<and> MaxConnections (demoConfig 1 1024) = 1
   \<and> outcome demoLib
      [Handler 0 (Accept True), Handler 0 (Register 100 True),
       Handler 1 (Accept True), Handler 1 (Register 101 True)]
      (boot (demoConfig 1 1024)) [0, 1]
     = ([], [(''client_100'', 0)], [Registered 0, Finished TooManyConnections])"
  by code_simp

text \<open>
  Claim C9, which the code does not meet. Two calls of \<^verbatim>\<open>HandleSSE\<close> that read the same
  value from the clock get the same id; both register, and the map then holds one entry,
  the second client, under that id.
\<close>

theorem C9_same_clock_reading_same_id:
  "outcome demoLib
      [Handler 0 (Accept True), Handler 0 (Register 100 True),
       Handler 1 (Accept True), Handler 1 (Register 100 True)]
      (boot (demoConfig 1000 1024)) [0, 1]
     = ([], [(''client_100'', 1)], [Registered 0, Registered 1])
   \<and> countAfter demoLib
      [Handler 0 (Accept True), Handler 0 (Register 100 True),
       Handler 1 (Accept True), Handler 1 (Register 100 True)]
      (boot (demoConfig 1000 1024)) = 1"
  by code_simp

section \<open>Delivery order\<close>

lemma subseq_drop_mid: "subseq (xs @ ys @ zs) B \<Longrightarrow> subseq (xs @ zs) B"
proof -
  assume a: "subseq (xs @ ys @ zs) B"
  have "subseq zs (ys @ zs)"
    by (rule subseq_drop_many) simp
  then have "subseq (xs @ zs) (xs @ ys @ zs)"
    by (simp add: subseq_append')
  then show ?thesis
    using a subseq_order.trans by blast
qed

lemma pending_enqueue: "pending (enqueue e c) = pending c @ [e]"
  by (simp add: pending_def enqueue_def receiverWaits_def)

lemma enqueue_fields [simp]:
  "conn (enqueue e c) = conn c" "closed (enqueue e c) = closed c"
  "clientID (enqueue e c) = clientID c"
  by (simp_all add: enqueue_def)

lemma pending_close [simp]: "pending (close c) = pending c"
  by (simp add: pending_def close_def)

lemma fifo_client_grow:
  "fifo_client L B c infl \<Longrightarrow> fifo_client L (B @ B') c infl"
proof -
  assume "fifo_client L B c infl"
  then obtain pre ds where p: "conn c = map (eventStr L) (pre @ ds)"
    "pre = [] \<or> (\<exists>ts. pre = [initialEvent (clientID c) ts])" "subseq ds B"
    "\<not> closed c \<longrightarrow> subseq (ds @ infl @ pending c) B"
    unfolding fifo_client_def by blast
  have "subseq ds (B @ B')"
    using p(3) by (rule subseq_rev_drop_many)
  moreover have "\<not> closed c \<longrightarrow> subseq (ds @ infl @ pending c) (B @ B')"
    using p(4) by (auto intro: subseq_rev_drop_many)
  ultimately show ?thesis
    unfolding fifo_client_def using p(1,2) by blast
qed

lemma fifo_client_enqueue:
  assumes "fifo_client L B c infl"
  shows "fifo_client L (B @ [e]) (enqueue e c) infl"
proof -
  from assms obtain pre ds where p: "conn c = map (eventStr L) (pre @ ds)"
    "pre = [] \<or> (\<exists>ts. pre = [initialEvent (clientID c) ts])" "subseq ds B"
    "\<not> closed c \<longrightarrow> subseq (ds @ infl @ pending c) B"
    unfolding fifo_client_def by blast
  have "subseq (ds @ infl @ pending c @ [e]) (B @ [e])" if "\<not> closed c"
  proof -
    from p(4) that have "subseq (ds @ infl @ pending c) B" by simp
    then have "subseq ((ds @ infl @ pending c) @ [e]) (B @ [e])"
      by (simp only: subseq_append)
    then show ?thesis by simp
  qed
  moreover have "subseq ds (B @ [e])"
    using p(3) by (rule subseq_rev_drop_many)
  ultimately show ?thesis
    unfolding fifo_client_def using p(1,2)
    by (intro exI [of _ pre] exI [of _ ds]) (simp add: pending_enqueue)
qed

lemma fifo_client_closed:
  assumes "fifo_client L B c infl" "closed c'" "conn c' = conn c" "clientID c' = clientID c"
  shows "fifo_client L B c' infl'"
  using assms unfolding fifo_client_def by auto

lemma fifo_client_close:
  "fifo_client L B c infl \<Longrightarrow> fifo_client L B (close c) infl"
  unfolding fifo_client_def by (auto simp: close_def)

lemma fifo_client_drop_inflight:
  assumes "fifo_client L B c infl"
  shows "fifo_client L B c []"
proof -
  from assms obtain pre ds where p: "conn c = map (eventStr L) (pre @ ds)"
    "pre = [] \<or> (\<exists>ts. pre = [initialEvent (clientID c) ts])" "subseq ds B"
    "\<not> closed c \<longrightarrow> subseq (ds @ infl @ pending c) B"
    unfolding fifo_client_def by blast
  have "\<not> closed c \<longrightarrow> subseq (ds @ [] @ pending c) B"
    using p(4) subseq_drop_mid [of ds infl "pending c" B] by simp
  then show ?thesis
    unfolding fifo_client_def using p(1,2,3) by blast
qed

lemma fifo_client_cong:
  assumes "conn c' = conn c" "clientID c' = clientID c" "closed c' = closed c"
    "pending c' = pending c"
  shows "fifo_client L B c' infl = fifo_client L B c infl"
  unfolding fifo_client_def by (simp add: assms)

lemma fifo_client_recv:
  assumes "fifo_client L B c []" "pending c = e # q" "pending c' = q"
    "conn c' = conn c" "clientID c' = clientID c" "closed c' = closed c"
  shows "fifo_client L B c' [e]"
  using assms unfolding fifo_client_def by auto

lemma fifo_client_send:
  assumes "fifo_client L B c [e]" "\<not> closed c"
    "conn c' = conn c @ [eventStr L e]" "pending c' = pending c"
    "clientID c' = clientID c" "closed c' = closed c"
  shows "fifo_client L B c' []"
proof -
  from assms(1,2) obtain pre ds where p: "conn c = map (eventStr L) (pre @ ds)"
    "pre = [] \<or> (\<exists>ts. pre = [initialEvent (clientID c) ts])"
    "subseq (ds @ [e] @ pending c) B"
    unfolding fifo_client_def by auto
  have "subseq (ds @ [e]) ((ds @ [e]) @ pending c)"
    by (rule prefix_imp_subseq) simp
  with p(3) have "subseq (ds @ [e]) B"
    using subseq_order.trans by fastforce
  then show ?thesis
    unfolding fifo_client_def using p assms(3-)
    by (intro exI [of _ pre] exI [of _ "ds @ [e]"]) simp
qed

lemma fifo_client_initial:
  assumes "fifo_client L B c infl" "conn c = []"
    "conn c' = [eventStr L (initialEvent (clientID c) ts)]" "pending c' = pending c"
    "clientID c' = clientID c" "closed c' = closed c"
  shows "fifo_client L B c' infl"
proof -
  from assms(1,2) obtain pre ds where p: "[] = map (eventStr L) (pre @ ds)"
    "subseq ds B" "\<not> closed c \<longrightarrow> subseq (ds @ infl @ pending c) B"
    unfolding fifo_client_def by auto
  then have "ds = []" by simp
  with p show ?thesis
    unfolding fifo_client_def using assms(3-)
    by (intro exI [of _ "[initialEvent (clientID c) ts]"] exI [of _ "[]"]) auto
qed

lemma inflight_no_addr: "addrOf h = None \<Longrightarrow> inflight h a = []"
  by (cases h) simp_all

lemma inflight_other: "addrOf h = Some a \<Longrightarrow> b \<noteq> a \<Longrightarrow> inflight h b = []"
  by (cases h) auto

lemma greets_addrOf: "greets h = Some a \<Longrightarrow> addrOf h = Some a"
  by (cases h) auto

lemma fifo_okD:
  "fifo_ok L B sys \<Longrightarrow> a < length (heap (srv sys)) \<Longrightarrow>
     fifo_client L B (heap (srv sys) ! a) (inflight (handlers sys g) a)"
  by (simp add: fifo_ok_def)

lemma fifo_okD0:
  "fifo_ok L B sys \<Longrightarrow> a < length (heap (srv sys)) \<Longrightarrow> fifo_client L B (heap (srv sys) ! a) []"
  using fifo_okD fifo_client_drop_inflight by blast

lemma handlers_okD:
  "handlers_ok sys \<Longrightarrow> addrOf (handlers sys g) = Some a \<Longrightarrow> a < length (heap (srv sys))"
  unfolding handlers_ok_def by blast

lemma handlers_ok_conn:
  "handlers_ok sys \<Longrightarrow> greets (handlers sys g) = Some a \<Longrightarrow> conn (heap (srv sys) ! a) = []"
  unfolding handlers_ok_def by blast

text \<open>The two invariants read the calls and the store only.\<close>

lemma inv_eq:
  assumes "handlers sys' = handlers sys" "heap (srv sys') = heap (srv sys)"
  shows "handlers_ok sys' = handlers_ok sys \<and> fifo_ok L B sys' = fifo_ok L B sys"
  by (simp add: handlers_ok_def fifo_ok_def assms)

text \<open>A step that changes the store only, in a way every client's history survives.\<close>

lemma inv_heap_step:
  assumes hok: "handlers_ok sys" and fok: "fifo_ok L B sys"
    and hs: "handlers sys' = handlers sys"
    and len: "length (heap (srv sys')) = length (heap (srv sys))"
    and cn: "\<And>a. a < length (heap (srv sys)) \<Longrightarrow>
               conn (heap (srv sys') ! a) = conn (heap (srv sys) ! a)"
    and fc: "\<And>a infl. a < length (heap (srv sys)) \<Longrightarrow>
               fifo_client L B (heap (srv sys) ! a) infl \<Longrightarrow>
               fifo_client L B' (heap (srv sys') ! a) infl"
  shows "handlers_ok sys' \<and> fifo_ok L B' sys'"
proof
  have "conn (heap (srv sys') ! a) = []" if "greets (handlers sys g) = Some a" for g a
  proof -
    from that have "addrOf (handlers sys g) = Some a" by (rule greets_addrOf)
    then have "a < length (heap (srv sys))"
      by (rule handlers_okD [OF hok])
    then show ?thesis
      using cn [of a] handlers_ok_conn [OF hok that] by simp
  qed
  then show "handlers_ok sys'"
    using hok unfolding handlers_ok_def hs len by blast
  show "fifo_ok L B' sys'"
    unfolding fifo_ok_def hs len
    using fc fifo_okD [OF fok] by blast
qed

text \<open>A step of one handler that leaves the store alone and ends without a client.\<close>

lemma inv_handler_none:
  assumes hok: "handlers_ok sys" and fok: "fifo_ok L B sys"
    and h': "addrOf h' = None"
    and hs: "handlers sys' = (handlers sys)(g := h')"
    and hp: "heap (srv sys') = heap (srv sys)"
  shows "handlers_ok sys' \<and> fifo_ok L B sys'"
proof
  have no: "greets h' = None"
    using h' greets_addrOf [of h'] by (cases "greets h'") auto
  show "handlers_ok sys'"
    using hok h' no unfolding handlers_ok_def hs hp
    by (auto split: if_splits)
  show "fifo_ok L B sys'"
    unfolding fifo_ok_def hs hp
    using fifo_okD [OF fok] fifo_okD0 [OF fok] inflight_no_addr [OF h']
    by auto
qed

text \<open>A step of the handler that owns the client at \<open>a\<close>.\<close>

lemma inv_handler_own:
  assumes hok: "handlers_ok sys" and fok: "fifo_ok L B sys"
    and g: "addrOf (handlers sys g) = Some a"
    and h': "addrOf h' = Some a" "greets h' \<noteq> None \<Longrightarrow> conn c' = []"
    and hs: "handlers sys' = (handlers sys)(g := h')"
    and hp: "heap (srv sys') = (heap (srv sys))[a := c']"
    and c1: "fifo_client L B c' (inflight h' a)"
    and c0: "fifo_client L B c' []"
  shows "handlers_ok sys' \<and> fifo_ok L B sys'"
proof
  have a: "a < length (heap (srv sys))"
    using hok g by (rule handlers_okD)
  have uniq: "g' = g" if "addrOf (handlers sys g') = Some a" for g'
    using hok g that unfolding handlers_ok_def by blast
  show "handlers_ok sys'"
    unfolding handlers_ok_def
  proof (intro conjI allI impI)
    fix g1 b
    assume "addrOf (handlers sys' g1) = Some b"
    then show "b < length (heap (srv sys'))"
      using hok a h'(1) unfolding handlers_ok_def hs hp
      by (auto split: if_splits)
  next
    fix g1 g2 b
    assume "addrOf (handlers sys' g1) = Some b" "addrOf (handlers sys' g2) = Some b"
    then show "g1 = g2"
      using hok h'(1) uniq unfolding handlers_ok_def hs
      by (auto split: if_splits)
  next
    fix g1 b
    assume r: "greets (handlers sys' g1) = Some b"
    show "conn (heap (srv sys') ! b) = []"
    proof (cases "g1 = g")
      case True
      with r have gr: "greets h' = Some b" by (simp add: hs)
      then have "b = a" using h'(1) greets_addrOf [OF gr] by simp
      then show ?thesis using h'(2) gr a by (simp add: hp)
    next
      case False
      with r have g1: "greets (handlers sys g1) = Some b" by (simp add: hs)
      then have "b \<noteq> a"
        using uniq [of g1] greets_addrOf [OF g1] False by auto
      then show ?thesis
        using handlers_ok_conn [OF hok g1] by (simp add: hp)
    qed
  qed
  show "fifo_ok L B sys'"
    unfolding fifo_ok_def
  proof (intro allI impI)
    fix b g1
    assume "b < length (heap (srv sys'))"
    then have b: "b < length (heap (srv sys))"
      by (simp add: hp)
    show "fifo_client L B (heap (srv sys') ! b) (inflight (handlers sys' g1) b)"
    proof (cases "b = a")
      case True
      show ?thesis
      proof (cases "g1 = g")
        case True
        then show ?thesis using c1 a \<open>b = a\<close> by (simp add: hs hp)
      next
        case False
        then have "addrOf (handlers sys g1) \<noteq> Some a"
          using uniq by blast
        then have "inflight (handlers sys g1) a = []"
          by (cases "handlers sys g1") auto
        then show ?thesis using c0 a \<open>b = a\<close> False by (simp add: hs hp)
      qed
    next
      case False
      then have hb: "heap (srv sys') ! b = heap (srv sys) ! b"
        by (simp add: hp)
      show ?thesis
      proof (cases "g1 = g")
        case True
        then have "inflight (handlers sys' g1) b = []"
          using inflight_other [OF h'(1) False] by (simp add: hs)
        then show ?thesis using fifo_okD0 [OF fok b] hb by simp
      next
        case False
        then show ?thesis using fifo_okD [OF fok b, of g1] hb by (simp add: hs)
      qed
    qed
  qed
qed

text \<open>Registration: a fresh client is appended and handler \<open>g\<close> becomes its owner.\<close>

lemma inv_register:
  assumes hok: "handlers_ok sys" and fok: "fifo_ok L B sys"
    and g: "addrOf (handlers sys g) = None"
    and hs: "handlers sys' = (handlers sys)(g := Registered (length (heap (srv sys))))"
    and hp: "heap (srv sys') = heap (srv sys) @ [c]"
    and c: "conn c = []" "pending c = []"
  shows "handlers_ok sys' \<and> fifo_ok L B sys'"
proof
  let ?n = "length (heap (srv sys))"
  have old: "b < ?n" if "addrOf (handlers sys g1) = Some b" for g1 b
    using hok that by (rule handlers_okD)
  show "handlers_ok sys'"
    unfolding handlers_ok_def
  proof (intro conjI allI impI)
    fix g1 b
    assume "addrOf (handlers sys' g1) = Some b"
    then show "b < length (heap (srv sys'))"
      using old [of g1 b] unfolding hs hp by (auto split: if_splits)
  next
    fix g1 g2 b
    assume "addrOf (handlers sys' g1) = Some b" "addrOf (handlers sys' g2) = Some b"
    then show "g1 = g2"
      using hok old [of g1 b] old [of g2 b] unfolding handlers_ok_def hs
      by (auto split: if_splits)
  next
    fix g1 b
    assume r: "greets (handlers sys' g1) = Some b"
    show "conn (heap (srv sys') ! b) = []"
    proof (cases "g1 = g")
      case True
      then have "b = ?n" using r by (simp add: hs)
      then show ?thesis using c by (simp add: hp)
    next
      case False
      then have r': "greets (handlers sys g1) = Some b" using r by (simp add: hs)
      then have "b < ?n" using old [of g1 b] greets_addrOf [OF r'] by simp
      then show ?thesis using handlers_ok_conn [OF hok r'] by (simp add: hp nth_append)
    qed
  qed
  show "fifo_ok L B sys'"
    unfolding fifo_ok_def
  proof (intro allI impI)
    fix b g1
    assume "b < length (heap (srv sys'))"
    then have b: "b < ?n \<or> b = ?n" by (auto simp: hp)
    have infl: "inflight (handlers sys' g1) b' = (if g1 = g then [] else inflight (handlers sys g1) b')"
      for b'
      by (simp add: hs)
    from b show "fifo_client L B (heap (srv sys') ! b) (inflight (handlers sys' g1) b)"
    proof
      assume lt: "b < ?n"
      then have "heap (srv sys') ! b = heap (srv sys) ! b" by (simp add: hp nth_append)
      then show ?thesis
        using fifo_okD [OF fok lt, of g1] fifo_okD0 [OF fok lt] by (simp add: infl)
    next
      assume eq: "b = ?n"
      have "inflight (handlers sys g1) ?n = []"
      proof (cases "addrOf (handlers sys g1)")
        case None
        then show ?thesis by (rule inflight_no_addr)
      next
        case (Some b')
        then have "?n \<noteq> b'" using old [of g1 b'] by auto
        then show ?thesis by (rule inflight_other [OF Some])
      qed
      then have "inflight (handlers sys' g1) b = []"
        by (simp add: infl eq)
      moreover have "fifo_client L B c []"
        unfolding fifo_client_def using c by simp
      ultimately show ?thesis by (simp add: hp eq)
    qed
  qed
qed

lemma removeClient_heap:
  "length (heap (removeClient cid s)) = length (heap s) \<and>
   (b < length (heap s) \<longrightarrow>
      heap (removeClient cid s) ! b = heap s ! b \<or> heap (removeClient cid s) ! b = close (heap s ! b))"
  by (cases "map_of (clients s) cid") (auto simp: removeClient_def nth_close_update)

lemma closeUntilHeld_heap:
  "closeUntilHeld reg h = (h', rest) \<Longrightarrow>
     length h' = length h \<and>
     (b < length h \<longrightarrow> h' ! b = h ! b \<or> h' ! b = close (h ! b))"
proof (induction reg arbitrary: h)
  case Nil
  then show ?case by simp
next
  case (Cons p reg)
  obtain k a where p: "p = (k, a)" by (cases p)
  show ?case
  proof (cases "mu (h ! a)")
    case True
    then show ?thesis using Cons.prems by (simp add: p)
  next
    case False
    then have "closeUntilHeld reg (h[a := close (h ! a)]) = (h', rest)"
      using Cons.prems by (simp add: p)
    from Cons.IH [OF this] show ?thesis
      by (auto simp: nth_close_update close_idem)
  qed
qed

lemma inv_same_heap:
  assumes "handlers_ok sys" "fifo_ok L B sys"
    "handlers sys' = handlers sys" "heap (srv sys') = heap (srv sys)"
  shows "handlers_ok sys' \<and> fifo_ok L (B @ B') sys'"
  by (rule inv_heap_step [OF assms(1,2,3)]) (simp_all add: assms(4) fifo_client_grow)

lemma inv_close_some:
  assumes "handlers_ok sys" "fifo_ok L B sys" "handlers sys' = handlers sys"
    and "length (heap (srv sys')) = length (heap (srv sys))"
    and "\<And>b. b < length (heap (srv sys)) \<Longrightarrow>
           heap (srv sys') ! b = heap (srv sys) ! b \<or> heap (srv sys') ! b = close (heap (srv sys) ! b)"
  shows "handlers_ok sys' \<and> fifo_ok L B sys'"
proof (rule inv_heap_step [OF assms(1,2,3,4)])
  fix a
  assume "a < length (heap (srv sys))"
  from assms(5) [OF this] show "conn (heap (srv sys') ! a) = conn (heap (srv sys) ! a)"
    by auto
next
  fix a infl
  assume "a < length (heap (srv sys))" "fifo_client L B (heap (srv sys) ! a) infl"
  with assms(5) [of a] show "fifo_client L B (heap (srv sys') ! a) infl"
    by (auto intro: fifo_client_close)
qed

text \<open>
  A step that changes, of one client, only what the history does not read: whether its
  receiver waits, whether its mutex is held.
\<close>

lemma inv_quiet:
  assumes "handlers_ok sys" "fifo_ok L B sys" "handlers sys' = handlers sys"
    and "heap (srv sys') = (heap (srv sys))[a := c']"
    and "conn c' = conn (heap (srv sys) ! a)" "clientID c' = clientID (heap (srv sys) ! a)"
      "closed c' = closed (heap (srv sys) ! a)" "pending c' = pending (heap (srv sys) ! a)"
  shows "handlers_ok sys' \<and> fifo_ok L B sys'"
proof (rule inv_heap_step [OF assms(1,2,3)])
  show "length (heap (srv sys')) = length (heap (srv sys))"
    by (simp add: assms(4))
next
  fix b
  assume "b < length (heap (srv sys))"
  then show "conn (heap (srv sys') ! b) = conn (heap (srv sys) ! b)"
    by (cases "b = a") (simp_all add: assms(4,5))
next
  fix b infl
  assume "b < length (heap (srv sys))" "fifo_client L B (heap (srv sys) ! b) infl"
  then show "fifo_client L B (heap (srv sys') ! b) infl"
    by (cases "b = a") (simp_all add: assms(4) fifo_client_cong [OF assms(5,6,7,8)])
qed

lemma inv_removeClient:
  assumes "handlers_ok sys" "fifo_ok L B sys" "handlers sys' = handlers sys"
    "srv sys' = removeClient cid (srv sys)"
  shows "handlers_ok sys' \<and> fifo_ok L B sys'"
  by (rule inv_close_some [OF assms(1,2,3)]) (use removeClient_heap [of cid "srv sys"] in \<open>auto simp: assms(4)\<close>)

lemma inv_shutdownFrom:
  assumes "handlers_ok sys" "fifo_ok L B sys"
  shows "handlers_ok (shutdownFrom todo sys) \<and> fifo_ok L B (shutdownFrom todo sys)"
proof -
  obtain h rest where cl: "closeUntilHeld todo (heap (srv sys)) = (h, rest)"
    by (cases "closeUntilHeld todo (heap (srv sys))")
  have hs: "handlers (shutdownFrom todo sys) = handlers sys"
    and hp: "heap (srv (shutdownFrom todo sys)) = h"
    by (auto simp: shutdownFrom_def cl Let_def)
  show ?thesis
  proof (rule inv_close_some [OF assms hs])
    show "length (heap (srv (shutdownFrom todo sys))) = length (heap (srv sys))"
      using closeUntilHeld_heap [OF cl] by (simp add: hp)
  next
    fix b
    assume "b < length (heap (srv sys))"
    then show "heap (srv (shutdownFrom todo sys)) ! b = heap (srv sys) ! b
        \<or> heap (srv (shutdownFrom todo sys)) ! b = close (heap (srv sys) ! b)"
      using closeUntilHeld_heap [OF cl, of b] by (simp add: hp)
  qed
qed

lemma inv_afterBroadcast:
  assumes rok: "registry_ok (srv sys)" and hok: "handlers_ok sys" and fok: "fifo_ok L B sys"
  shows "handlers_ok (afterBroadcast (Broadcast e (srv sys)) sys)
       \<and> fifo_ok L (B @ [e]) (afterBroadcast (Broadcast e (srv sys)) sys)"
    (is "handlers_ok ?sys' \<and> _")
proof -
  from Broadcast_ok [OF rok, of e]
  obtain h' where h': "Broadcast e (srv sys)
        = Inr ((srv sys)\<lparr>heap := h'\<rparr>,
               map fst (filter (\<lambda>(k, a). full (heap (srv sys) ! a)) (clients (srv sys))))"
    "length h' = length (heap (srv sys))"
    "\<forall>b < length (heap (srv sys)). h' ! b =
        (if b \<in> snd ` set (clients (srv sys)) \<and> \<not> full (heap (srv sys) ! b)
         then enqueue e (heap (srv sys) ! b) else heap (srv sys) ! b)"
    by blast
  from h'(1) have hs: "handlers ?sys' = handlers sys" and hp: "heap (srv ?sys') = h'"
    by (auto simp: afterBroadcast_def)
  show ?thesis
  proof (rule inv_heap_step [OF hok fok hs])
    show "length (heap (srv ?sys')) = length (heap (srv sys))"
      by (simp add: hp h'(2))
  next
    fix a
    assume "a < length (heap (srv sys))"
    then show "conn (heap (srv ?sys') ! a) = conn (heap (srv sys) ! a)"
      using h'(3) by (simp add: hp)
  next
    fix a infl
    assume "a < length (heap (srv sys))" "fifo_client L B (heap (srv sys) ! a) infl"
    then show "fifo_client L (B @ [e]) (heap (srv ?sys') ! a) infl"
      using h'(3) by (simp add: hp fifo_client_enqueue fifo_client_grow)
  qed
qed

lemma system_unchanged: "sys\<lparr>srv := srv sys, handlers := (handlers sys)(g := handlers sys g)\<rparr> = sys"
  by simp

lemma inv_Accept:
  assumes "handlers_ok sys" "fifo_ok L B sys"
    and "HandleSSE L (Accept fl) (handlers sys g) (srv sys) = Inr (h', s')"
  shows "handlers_ok (sys\<lparr>srv := s', handlers := (handlers sys)(g := h')\<rparr>)
       \<and> fifo_ok L B (sys\<lparr>srv := s', handlers := (handlers sys)(g := h')\<rparr>)"
proof (cases "handlers sys g = Idle")
  case True
  with assms(3) have "addrOf h' = None" "s' = srv sys"
    by (auto split: if_splits)
  then show ?thesis
    by (intro inv_handler_none [OF assms(1,2), of h' _ g]) simp_all
next
  case False
  then have "h' = handlers sys g" "s' = srv sys"
    using assms(3) by (auto split: hstate.splits)
  then show ?thesis using assms(1,2) by (simp add: system_unchanged)
qed

lemma inv_Register:
  assumes "handlers_ok sys" "fifo_ok L B sys"
    and "HandleSSE L (Register now mem) (handlers sys g) (srv sys) = Inr (h', s')"
  shows "handlers_ok (sys\<lparr>srv := s', handlers := (handlers sys)(g := h')\<rparr>)
       \<and> fifo_ok L B (sys\<lparr>srv := s', handlers := (handlers sys)(g := h')\<rparr>)"
proof (cases "handlers sys g = Admitted")
  case True
  let ?c = "\<lparr>clientID = generateClientID now, EventCh = [],
             chcap = nat (BufferSize (config (srv sys))), handoff = None, parked = False,
             mu = False, closed = False, conn = []\<rparr> :: 'a Client"
  from True assms(3)
  have h': "h' = Registered (length (heap (srv sys)))" and hp: "heap s' = heap (srv sys) @ [?c]"
    by (auto simp: Let_def split: if_splits)
  show ?thesis
    by (rule inv_register [OF assms(1,2), of g _ ?c]) (simp_all add: True h' hp pending_def)
next
  case False
  then have "h' = handlers sys g" "s' = srv sys"
    using assms(3) by (auto split: hstate.splits)
  then show ?thesis using assms(1,2) by (simp add: system_unchanged)
qed

text \<open>Entering \<^verbatim>\<open>sendEventToClient\<close>, for the initial event or for a received one.\<close>

lemma inv_enter:
  assumes hok: "handlers_ok sys" and fok: "fifo_ok L B sys"
    and st: "HandleSSE L (Initial ts) (handlers sys g) (srv sys) = Inr (h', s')
           \<or> HandleSSE L Send (handlers sys g) (srv sys) = Inr (h', s')"
  shows "handlers_ok (sys\<lparr>srv := s', handlers := (handlers sys)(g := h')\<rparr>)
       \<and> fifo_ok L B (sys\<lparr>srv := s', handlers := (handlers sys)(g := h')\<rparr>)"
proof -
  from st have "(h' = handlers sys g \<and> s' = srv sys)
      \<or> (addrOf h' = None \<and> s' = srv sys)
      \<or> (\<exists>a. s' = (srv sys)\<lparr>heap := (heap (srv sys))[a := (heap (srv sys) ! a)\<lparr>mu := True\<rparr>]\<rparr>
            \<and> addrOf (handlers sys g) = Some a \<and> addrOf h' = Some a
            \<and> inflight h' a = inflight (handlers sys g) a
            \<and> (greets h' \<noteq> None \<longrightarrow> greets (handlers sys g) = Some a))"
    by (auto simp: Let_def split: hstate.splits if_splits)
  then show ?thesis
  proof (elim disjE exE conjE)
    assume "h' = handlers sys g" "s' = srv sys"
    then show ?thesis using hok fok by (simp add: system_unchanged)
  next
    assume "addrOf h' = None" "s' = srv sys"
    then show ?thesis
      by (intro inv_handler_none [OF hok fok, of h' _ g]) simp_all
  next
    fix a
    let ?c = "heap (srv sys) ! a"
    assume s': "s' = (srv sys)\<lparr>heap := (heap (srv sys))[a := ?c\<lparr>mu := True\<rparr>]\<rparr>"
      and g: "addrOf (handlers sys g) = Some a" and h': "addrOf h' = Some a"
      and infl: "inflight h' a = inflight (handlers sys g) a"
      and gr: "greets h' \<noteq> None \<longrightarrow> greets (handlers sys g) = Some a"
    have a: "a < length (heap (srv sys))"
      using handlers_okD [OF hok g] .
    have f1: "fifo_client L B (?c\<lparr>mu := True\<rparr>) (inflight h' a)"
      using fifo_okD [OF fok a, of g] infl
      by (simp add: fifo_client_cong [of "?c\<lparr>mu := True\<rparr>" ?c] pending_def)
    have f0: "fifo_client L B (?c\<lparr>mu := True\<rparr>) []"
      using f1 by (rule fifo_client_drop_inflight)
    have cn: "conn (?c\<lparr>mu := True\<rparr>) = []" if "greets h' \<noteq> None"
      using that gr handlers_ok_conn [OF hok, of g a] by simp
    show ?thesis
      by (rule inv_handler_own [OF hok fok g h' cn])
        (simp_all add: s' f1 f0)
  qed
qed

lemma inv_Park:
  assumes hok: "handlers_ok sys" and fok: "fifo_ok L B sys"
    and st: "HandleSSE L Park (handlers sys g) (srv sys) = Inr (h', s')"
  shows "handlers_ok (sys\<lparr>srv := s', handlers := (handlers sys)(g := h')\<rparr>)
       \<and> fifo_ok L B (sys\<lparr>srv := s', handlers := (handlers sys)(g := h')\<rparr>)"
proof -
  from st have h': "h' = handlers sys g"
    by (auto simp: Let_def split: hstate.splits if_splits)
  from st have "s' = srv sys
      \<or> (\<exists>a. s' = (srv sys)\<lparr>heap := (heap (srv sys))[a := (heap (srv sys) ! a)\<lparr>parked := True\<rparr>]\<rparr>)"
    by (auto simp: Let_def split: hstate.splits if_splits)
  then show ?thesis
  proof
    assume "s' = srv sys"
    then show ?thesis using hok fok h' by (simp add: system_unchanged)
  next
    assume "\<exists>a. s' = (srv sys)\<lparr>heap := (heap (srv sys))[a := (heap (srv sys) ! a)\<lparr>parked := True\<rparr>]\<rparr>"
    then obtain a
      where s': "s' = (srv sys)\<lparr>heap := (heap (srv sys))[a := (heap (srv sys) ! a)\<lparr>parked := True\<rparr>]\<rparr>"
      by blast
    show ?thesis
      by (rule inv_quiet [OF hok fok, of _ a "(heap (srv sys) ! a)\<lparr>parked := True\<rparr>"])
        (simp_all add: h' s' pending_def)
  qed
qed

lemma inv_Recv:
  assumes hok: "handlers_ok sys" and fok: "fifo_ok L B sys"
    and st: "HandleSSE L Recv (handlers sys g) (srv sys) = Inr (h', s')"
  shows "handlers_ok (sys\<lparr>srv := s', handlers := (handlers sys)(g := h')\<rparr>)
       \<and> fifo_ok L B (sys\<lparr>srv := s', handlers := (handlers sys)(g := h')\<rparr>)"
proof (cases "\<exists>a. handlers sys g = Streaming a")
  case True
  then obtain a where str: "handlers sys g = Streaming a" by blast
  let ?c = "heap (srv sys) ! a"
  have a: "a < length (heap (srv sys))"
    using handlers_okD [OF hok, of g a] str by simp
  have f0: "fifo_client L B ?c []"
    using fifo_okD0 [OF fok a] .
  show ?thesis
  proof (cases "handoff ?c")
    case (Some e)
    let ?c' = "?c\<lparr>handoff := None, parked := False\<rparr>"
    from Some str st have h': "h' = Sending a e"
      and s': "s' = (srv sys)\<lparr>heap := (heap (srv sys))[a := ?c']\<rparr>"
      by (auto simp: Let_def)
    have f1: "fifo_client L B ?c' [e]"
      by (rule fifo_client_recv [OF f0, of e "EventCh ?c"]) (simp_all add: pending_def Some)
    show ?thesis
      by (rule inv_handler_own [OF hok fok, where g = g and a = a and h' = h' and c' = ?c'])
        (simp_all add: str h' s' f1 fifo_client_drop_inflight [OF f1])
  next
    case None
    show ?thesis
    proof (cases "EventCh ?c")
      case Nil
      show ?thesis
      proof (cases "closed ?c")
        case True
        with Nil None str st have h': "h' = Sending a zeroEvent" and s': "s' = unpark a (srv sys)"
          by (auto simp: Let_def)
        have cl: "closed (?c\<lparr>parked := False\<rparr>)" using True by simp
        show ?thesis
          by (rule inv_handler_own [OF hok fok, where g = g and a = a and h' = h'
                and c' = "?c\<lparr>parked := False\<rparr>"])
            (simp_all add: str h' s' unpark_def fifo_client_closed [OF f0 cl])
      next
        case False
        with Nil None str st have "h' = handlers sys g" "s' = srv sys"
          by (auto simp: Let_def)
        then show ?thesis using hok fok by (simp add: system_unchanged)
      qed
    next
      case (Cons e q)
      let ?c' = "?c\<lparr>EventCh := q, parked := False\<rparr>"
      from Cons None str st have h': "h' = Sending a e"
        and s': "s' = (srv sys)\<lparr>heap := (heap (srv sys))[a := ?c']\<rparr>"
        by (auto simp: Let_def)
      have f1: "fifo_client L B ?c' [e]"
        by (rule fifo_client_recv [OF f0, of e q]) (simp_all add: pending_def None Cons)
      show ?thesis
        by (rule inv_handler_own [OF hok fok, where g = g and a = a and h' = h' and c' = ?c'])
          (simp_all add: str h' s' f1 fifo_client_drop_inflight [OF f1])
    qed
  qed
next
  case False
  then have "h' = handlers sys g" "s' = srv sys"
    using st by (auto split: hstate.splits)
  then show ?thesis using hok fok by (simp add: system_unchanged)
qed

text \<open>The write has returned: the rest of \<^verbatim>\<open>sendEventToClient\<close>.\<close>

lemma inv_Written:
  assumes hok: "handlers_ok sys" and fok: "fifo_ok L B sys"
    and st: "HandleSSE L (Written wok) (handlers sys g) (srv sys) = Inr (h', s')"
  shows "handlers_ok (sys\<lparr>srv := s', handlers := (handlers sys)(g := h')\<rparr>)
       \<and> fifo_ok L B (sys\<lparr>srv := s', handlers := (handlers sys)(g := h')\<rparr>)"
proof -
  consider a ts where "handlers sys g = Greeting a ts"
    | a e where "handlers sys g = Writing a e"
    | "\<forall>a ts. handlers sys g \<noteq> Greeting a ts" "\<forall>a e. handlers sys g \<noteq> Writing a e"
    by blast
  then show ?thesis
  proof cases
    case 1
    let ?c = "heap (srv sys) ! a"
    let ?e = "initialEvent (clientID ?c) ts"
    have a: "a < length (heap (srv sys))"
      using handlers_okD [OF hok, of g a] 1 by simp
    have empty: "conn ?c = []"
      using handlers_ok_conn [OF hok, of g a] 1 by simp
    show ?thesis
    proof (cases "sendEventToClient L wok ?c ?e")
      case (Inl err)
      with 1 st have h': "addrOf h' = None"
        and s': "s' = (srv sys)\<lparr>heap := (heap (srv sys))[a := ?c\<lparr>mu := False\<rparr>]\<rparr>"
        by (auto simp: Let_def)
      let ?s1 = "sys\<lparr>srv := s'\<rparr>"
      have q: "handlers_ok ?s1 \<and> fifo_ok L B ?s1"
        by (rule inv_quiet [OF hok fok, of _ a "?c\<lparr>mu := False\<rparr>"]) (simp_all add: s' pending_def)
      show ?thesis
        by (rule inv_handler_none [of ?s1 L B h' _ g]) (simp_all add: q h')
    next
      case (Inr c')
      with 1 st have h': "h' = Streaming a"
        and s': "s' = (srv sys)\<lparr>heap := (heap (srv sys))[a := c'\<lparr>mu := False\<rparr>]\<rparr>"
        by (auto simp: Let_def)
      from sendEventToClient_Inr [OF Inr]
      have c': "c' = ?c\<lparr>conn := conn ?c @ [eventStr L ?e]\<rparr>"
        by simp
      have f: "fifo_client L B (c'\<lparr>mu := False\<rparr>) []"
        by (rule fifo_client_initial [OF fifo_okD0 [OF fok a] empty, of _ ts])
          (simp_all add: c' empty pending_def)
      show ?thesis
        by (rule inv_handler_own [OF hok fok, where g = g and a = a and h' = h'
              and c' = "c'\<lparr>mu := False\<rparr>"])
          (simp_all add: 1 h' s' f)
    qed
  next
    case 2
    let ?c = "heap (srv sys) ! a"
    have a: "a < length (heap (srv sys))"
      using handlers_okD [OF hok, of g a] 2 by simp
    have f1: "fifo_client L B ?c [e]"
      using fifo_okD [OF fok a, of g] 2 by simp
    show ?thesis
    proof (cases "sendEventToClient L wok ?c e")
      case (Inl err)
      with 2 st have h': "addrOf h' = None"
        and s': "s' = (srv sys)\<lparr>heap := (heap (srv sys))[a := ?c\<lparr>mu := False\<rparr>]\<rparr>"
        by (auto simp: Let_def)
      let ?s1 = "sys\<lparr>srv := s'\<rparr>"
      have q: "handlers_ok ?s1 \<and> fifo_ok L B ?s1"
        by (rule inv_quiet [OF hok fok, of _ a "?c\<lparr>mu := False\<rparr>"]) (simp_all add: s' pending_def)
      show ?thesis
        by (rule inv_handler_none [of ?s1 L B h' _ g]) (simp_all add: q h')
    next
      case (Inr c')
      with 2 st have h': "h' = Streaming a"
        and s': "s' = (srv sys)\<lparr>heap := (heap (srv sys))[a := c'\<lparr>mu := False\<rparr>]\<rparr>"
        by (auto simp: Let_def)
      from sendEventToClient_Inr [OF Inr]
      have c': "c' = ?c\<lparr>conn := conn ?c @ [eventStr L e]\<rparr>" and op: "\<not> closed ?c"
        by simp_all
      have f: "fifo_client L B (c'\<lparr>mu := False\<rparr>) []"
        by (rule fifo_client_send [OF f1 op]) (simp_all add: c' pending_def)
      show ?thesis
        by (rule inv_handler_own [OF hok fok, where g = g and a = a and h' = h'
              and c' = "c'\<lparr>mu := False\<rparr>"])
          (simp_all add: 2 h' s' f)
    qed
  next
    case 3
    then have "h' = handlers sys g" "s' = srv sys"
      using st by (auto split: hstate.splits)
    then show ?thesis using hok fok by (simp add: system_unchanged)
  qed
qed

lemma inv_Done:
  assumes hok: "handlers_ok sys" and fok: "fifo_ok L B sys"
    and st: "HandleSSE L ServerDone (handlers sys g) (srv sys) = Inr (h', s')
           \<or> HandleSSE L PeerDone (handlers sys g) (srv sys) = Inr (h', s')"
  shows "handlers_ok (sys\<lparr>srv := s', handlers := (handlers sys)(g := h')\<rparr>)
       \<and> fifo_ok L B (sys\<lparr>srv := s', handlers := (handlers sys)(g := h')\<rparr>)"
proof -
  from st have "(h' = handlers sys g \<and> s' = srv sys)
      \<or> (addrOf h' = None \<and> (\<exists>a. s' = unpark a (srv sys)))"
    by (auto split: hstate.splits if_splits)
  then show ?thesis
  proof
    assume "h' = handlers sys g \<and> s' = srv sys"
    then show ?thesis using hok fok by (simp add: system_unchanged)
  next
    assume "addrOf h' = None \<and> (\<exists>a. s' = unpark a (srv sys))"
    then obtain a where h': "addrOf h' = None" and s': "s' = unpark a (srv sys)"
      by blast
    let ?s1 = "sys\<lparr>srv := s'\<rparr>"
    have 1: "handlers_ok ?s1 \<and> fifo_ok L B ?s1"
      by (rule inv_quiet [OF hok fok, of _ a "(heap (srv sys) ! a)\<lparr>parked := False\<rparr>"])
        (simp_all add: s' unpark_def pending_def)
    show ?thesis
      by (rule inv_handler_none [of ?s1 L B h' _ g]) (simp_all add: 1 h')
  qed
qed

lemma inv_Leave:
  assumes hok: "handlers_ok sys" and fok: "fifo_ok L B sys"
    and st: "HandleSSE L Leave (handlers sys g) (srv sys) = Inr (h', s')"
  shows "handlers_ok (sys\<lparr>srv := s', handlers := (handlers sys)(g := h')\<rparr>)
       \<and> fifo_ok L B (sys\<lparr>srv := s', handlers := (handlers sys)(g := h')\<rparr>)"
proof (cases "\<exists>cid. handlers sys g = Leaving cid")
  case True
  then obtain cid where l: "handlers sys g = Leaving cid" by blast
  let ?s1 = "sys\<lparr>srv := removeClient cid (srv sys)\<rparr>"
  from l st have h': "h' = Finished StreamEnded" and s': "s' = removeClient cid (srv sys)"
    by auto
  have 1: "handlers_ok ?s1 \<and> fifo_ok L B ?s1"
    by (rule inv_removeClient [OF hok fok, of _ cid]) simp_all
  show ?thesis
    by (rule inv_handler_none [of ?s1 L B h' _ g]) (simp_all add: 1 h' s')
next
  case False
  then have "h' = handlers sys g" "s' = srv sys"
    using st by (auto split: hstate.splits)
  then show ?thesis using hok fok by (simp add: system_unchanged)
qed

lemma inv_Handler:
  assumes hok: "handlers_ok sys" and fok: "fifo_ok L B sys"
    and st: "HandleSSE L stg (handlers sys g) (srv sys) = Inr (h', s')"
  shows "handlers_ok (sys\<lparr>srv := s', handlers := (handlers sys)(g := h')\<rparr>)
       \<and> fifo_ok L B (sys\<lparr>srv := s', handlers := (handlers sys)(g := h')\<rparr>)"
proof (cases stg)
  case (Accept fl)
  then show ?thesis using inv_Accept [OF hok fok] st by blast
next
  case (Register now mem)
  then show ?thesis using inv_Register [OF hok fok] st by blast
next
  case (Initial ts)
  then show ?thesis using inv_enter [OF hok fok] st by blast
next
  case Park
  then show ?thesis using inv_Park [OF hok fok] st by blast
next
  case Recv
  then show ?thesis using inv_Recv [OF hok fok] st by blast
next
  case Send
  then show ?thesis using inv_enter [OF hok fok] st by blast
next
  case (Written wok)
  then show ?thesis using inv_Written [OF hok fok] st by blast
next
  case ServerDone
  then show ?thesis using inv_Done [OF hok fok] st by blast
next
  case PeerDone
  then show ?thesis using inv_Done [OF hok fok] st by blast
next
  case Leave
  then show ?thesis using inv_Leave [OF hok fok] st by blast
qed

lemma inv_step:
  assumes rok: "shutting sys \<or> registry_ok (srv sys)"
    and hok: "handlers_ok sys" and fok: "fifo_ok L B sys"
  shows "handlers_ok (step L x sys) \<and> fifo_ok L (B @ broadcastOf sys x) (step L x sys)"
proof (cases x)
  case (Handler g stg)
  show ?thesis
  proof (cases "HandleSSE L stg (handlers sys g) (srv sys)")
    case (Inl p)
    then have s': "step L x sys
        = sys\<lparr>handlers := (handlers sys)(g := Finished Aborted), panics := panics sys @ [p]\<rparr>"
      by (simp add: Handler)
    have "handlers_ok (step L x sys) \<and> fifo_ok L B (step L x sys)"
      by (rule inv_handler_none [OF hok fok, of "Finished Aborted" _ g]) (simp_all add: s')
    then show ?thesis by (simp add: Handler)
  next
    case (Inr r)
    obtain h' s' where r: "r = (h', s')" by (cases r)
    let ?sys1 = "sys\<lparr>srv := s', handlers := (handlers sys)(g := h')\<rparr>"
    have 1: "handlers_ok ?sys1 \<and> fifo_ok L B ?sys1"
      using inv_Handler [OF hok fok Inr [unfolded r]] .
    have "(handlers (step L x sys) = handlers sys \<and> heap (srv (step L x sys)) = heap (srv sys))
        \<or> (handlers (step L x sys) = handlers ?sys1 \<and> heap (srv (step L x sys)) = heap (srv ?sys1))"
      by (auto simp: Handler Inr r split: hstate.splits)
    then have "handlers_ok (step L x sys) \<and> fifo_ok L B (step L x sys)"
      using hok fok 1 inv_eq [of "step L x sys" sys L B] inv_eq [of "step L x sys" ?sys1 L B]
      by blast
    then show ?thesis by (simp add: Handler)
  qed
next
  case (Bcast e)
  show ?thesis
  proof (cases "locked sys")
    case None
    then have "registry_ok (srv sys)"
      using rok by (simp add: shutting_def)
    from inv_afterBroadcast [OF this hok fok, of e] show ?thesis
      by (simp add: Bcast None callBroadcast_def)
  next
    case (Some hd)
    then show ?thesis using hok fok by (simp add: Bcast callBroadcast_def)
  qed
next
  case (BcastType t e)
  show ?thesis
  proof (cases "locked sys")
    case None
    then have "registry_ok (srv sys)"
      using rok by (simp add: shutting_def)
    have eq: "step L x sys = afterBroadcast (Broadcast e (srv sys)) sys"
      by (simp only: BcastType step_BcastType) (simp add: None callBroadcast_def)
    from inv_afterBroadcast [OF \<open>registry_ok (srv sys)\<close> hok fok, of e] show ?thesis
      unfolding eq by (simp add: BcastType None)
  next
    case (Some hd)
    then show ?thesis using hok fok by (simp add: BcastType callBroadcastToType_def)
  qed
next
  case (Tick ts)
  show ?thesis
  proof (cases "heartbeat_running sys \<and> locked sys = None")
    case True
    then have "registry_ok (srv sys)"
      using rok by (simp add: shutting_def)
    from inv_afterBroadcast [OF this hok fok, of "heartbeatEvent ts"] show ?thesis
      using True by (simp add: Tick callBroadcast_def)
  next
    case False
    then show ?thesis using hok fok by (auto simp: Tick callBroadcast_def)
  qed
next
  case HbStop
  then have "handlers (step L x sys) = handlers sys"
    "heap (srv (step L x sys)) = heap (srv sys)"
    by simp_all
  then show ?thesis
    using inv_eq [of "step L x sys" sys L B] hok fok HbStop by simp
next
  case (Evict i)
  show ?thesis
  proof (cases "locked sys = None \<and> i < length (spawned sys)
      \<and> \<not> mutexHeld (spawned sys ! i) (srv sys)")
    case True
    then have "handlers (step L x sys) = handlers sys"
      "srv (step L x sys) = removeClient (spawned sys ! i) (srv sys)"
      using Evict by (simp_all add: Let_def)
    then show ?thesis
      using inv_removeClient [OF hok fok] Evict by simp
  next
    case False
    then have "handlers (step L x sys) = handlers sys"
      "heap (srv (step L x sys)) = heap (srv sys)"
      using Evict by (auto simp: Let_def)
    then show ?thesis
      using inv_eq [of "step L x sys" sys L B] hok fok Evict by simp
  qed
next
  case Shut
  show ?thesis
  proof (cases "locked sys")
    case None
    let ?sys1 = "sys\<lparr>srv := (srv sys)\<lparr>ctx_done := True\<rparr>\<rparr>"
    have "handlers_ok ?sys1 \<and> fifo_ok L B ?sys1"
      using inv_eq [of ?sys1 sys L B] hok fok by simp
    then have "handlers_ok (shutdownFrom (clients (srv sys)) ?sys1)
        \<and> fifo_ok L B (shutdownFrom (clients (srv sys)) ?sys1)"
      using inv_shutdownFrom by blast
    then show ?thesis by (simp add: Shut None)
  next
    case (Some hd)
    then show ?thesis using hok fok by (simp add: Shut)
  qed
next
  case Count
  then have "step L x sys = sys" by (simp add: GetConnectionCount_def)
  then show ?thesis using hok fok Count by simp
next
  case Resume
  show ?thesis
  proof (cases "locked sys")
    case None
    then show ?thesis using hok fok Resume by simp
  next
    case (Some hd)
    show ?thesis
    proof (cases hd)
      case (ByHandler g)
      then show ?thesis using hok fok Resume Some by simp
    next
      case (ByRemover cid)
      show ?thesis
      proof (cases "mutexHeld cid (srv sys)")
        case True
        then show ?thesis using hok fok Resume Some ByRemover by simp
      next
        case False
        then have "handlers (step L x sys) = handlers sys"
          "srv (step L x sys) = removeClient cid (srv sys)"
          using Resume Some ByRemover by simp_all
        then show ?thesis
          using inv_removeClient [OF hok fok] Resume by simp
      qed
    next
      case (ByShutdown todo)
      then show ?thesis
        using inv_shutdownFrom [OF hok fok, of todo] Resume Some by simp
    qed
  qed
qed

lemma sys_inv_run:
  "sys_inv L B sys \<Longrightarrow> sys_inv L (B @ broadcasts L xs sys) (run L xs sys)"
proof (induction xs arbitrary: sys B)
  case Nil
  then show ?case by simp
next
  case (Cons x xs)
  from Cons.prems have "sys_inv L (B @ broadcastOf sys x) (step L x sys)"
    unfolding sys_inv_def using inv_step reg_inv_step by blast
  from Cons.IH [OF this] show ?case
    by simp
qed

lemma sys_inv_boot: "sys_inv L [] (boot cfg)"
  by (simp add: sys_inv_def boot_def registry_ok_def handlers_ok_def fifo_ok_def
      NewServerWithConfig_def)

text \<open>
  Claim C7. Take any schedule and any client allocated in it. What has been written to
  that client's connection is the rendering of a list of events that consists of the
  initial event (if it has been sent) followed by a subsequence of the events passed to
  \<^verbatim>\<open>Broadcast\<close> and \<^verbatim>\<open>BroadcastToType\<close> (by callers or by the heartbeat), taken in the
  order of the calls: events may be missing, none is out of order. Nothing is stated
  about how the connections of two clients relate.
\<close>

theorem C7_per_client_fifo:
  assumes "a < length (heap (srv (run L xs (boot cfg))))"
  shows "\<exists>pre ds. conn (clientAt (run L xs (boot cfg)) a) = map (eventStr L) (pre @ ds)
           \<and> (pre = [] \<or> (\<exists>ts. pre = [initialEvent (clientID (clientAt (run L xs (boot cfg)) a)) ts]))
           \<and> subseq ds (broadcasts L xs (boot cfg))"
proof -
  from sys_inv_run [OF sys_inv_boot, of L xs cfg]
  have "fifo_ok L (broadcasts L xs (boot cfg)) (run L xs (boot cfg))"
    by (simp add: sys_inv_def)
  from fifo_okD0 [OF this assms] show ?thesis
    unfolding fifo_client_def clientAt_def by blast
qed

theorem C7_per_client_fifo_witness:
  "run demoLib demoSchedule (boot (demoConfig 2 1)) = demoFinal
   \<and> (0 :: nat) < length (heap (srv demoFinal))
   \<and> broadcasts demoLib demoSchedule (boot (demoConfig 2 1))
       = [demoEvent ''a'', demoEvent ''b'', demoEvent ''c'']
   \<and> conn (clientAt demoFinal 0)
       = map (eventStr demoLib) ([initialEvent ''client_100'' 5] @ [demoEvent ''a'', demoEvent ''b''])
   \<and> (\<exists>pre ds. conn (clientAt demoFinal 0) = map (eventStr demoLib) (pre @ ds)
           \<and> (pre = [] \<or> (\<exists>ts. pre = [initialEvent (clientID (clientAt demoFinal 0)) ts]))
           \<and> subseq ds (broadcasts demoLib demoSchedule (boot (demoConfig 2 1))))"
proof -
  have len: "(0 :: nat) < length (heap (srv (run demoLib demoSchedule (boot (demoConfig 2 1)))))"
    by (simp add: demo_run demoFinal_def demoServer_def)
  have b: "broadcasts demoLib demoSchedule (boot (demoConfig 2 1))
       = [demoEvent ''a'', demoEvent ''b'', demoEvent ''c'']"
    by code_simp
  have c: "conn (clientAt demoFinal 0)
       = map (eventStr demoLib) ([initialEvent ''client_100'' 5] @ [demoEvent ''a'', demoEvent ''b''])"
    by (simp add: clientAt_def demoFinal_def demoServer_def demoClient0_def eventStr_def
        dataStr_def initialEvent_def demoLib_def demoEvent_def)
  have e: "\<exists>pre ds. conn (clientAt demoFinal 0) = map (eventStr demoLib) (pre @ ds)
           \<and> (pre = [] \<or> (\<exists>ts. pre = [initialEvent (clientID (clientAt demoFinal 0)) ts]))
           \<and> subseq ds (broadcasts demoLib demoSchedule (boot (demoConfig 2 1)))"
    using C7_per_client_fifo [OF len] by (simp only: demo_run)
  have len': "(0 :: nat) < length (heap (srv demoFinal))"
    using len by (simp only: demo_run)
  from demo_run len' b c e show ?thesis
    by blast
qed

end
